theory Spec2Isabelle
  imports Complex_Main "HOL-Library.Word"
begin

section \<open>Strings and values of the script\<close>

text \<open>
  A string of the script is a sequence of 16-bit code units: \<open>length\<close> and
  \<open>charAt\<close> count code units. \<open>lit\<close> embeds an ASCII literal of the source text.
\<close>

type_synonym jschar = "16 word"
type_synonym jstring = "jschar list"

definition lit :: "string \<Rightarrow> jstring" where
  "lit cs = map of_char cs"

text \<open>
  \<open>String.prototype.trim\<close> removes white space and line terminators from both ends:
  TAB, LF, VT, FF, CR, SP, NBSP, U+1680, U+2000 to U+200A, U+2028, U+2029, U+202F, U+205F,
  U+3000 and U+FEFF.
\<close>

definition is_ws :: "jschar \<Rightarrow> bool" where
  "is_ws c = (c \<in> set [9, 10, 11, 12, 13, 32, 160, 5760, 8232, 8233, 8239, 8287, 12288, 65279]
     \<or> (8192 \<le> c \<and> c \<le> 8202))"

definition trim :: "jstring \<Rightarrow> jstring" where
  "trim v = rev (dropWhile is_ws (rev (dropWhile is_ws v)))"

text \<open>\<open>text.charAt(i)\<close>: the code unit at \<open>i\<close> as a string, the empty string out of range.\<close>

definition charAt :: "jstring \<Rightarrow> nat \<Rightarrow> jstring" where
  "charAt t i = (if i < length t then [t ! i] else [])"

text \<open>
  The values \<open>res.json()\<close> can resolve to, together with \<open>undefined\<close> (the value of
  a property the object does not have). A number is kept by its numeric value; the script
  only tests it for being zero.
\<close>

datatype jsval =
    JUndefined
  | JNull
  | JBool bool
  | JNum rat
  | JStr jstring
  | JArr "jsval list"
  | JObj "(jstring \<times> jsval) list"

fun truthy :: "jsval \<Rightarrow> bool" where
  "truthy JUndefined = False"
| "truthy JNull = False"
| "truthy (JBool b) = b"
| "truthy (JNum r) = (r \<noteq> 0)"
| "truthy (JStr t) = (t \<noteq> [])"
| "truthy (JArr xs) = True"
| "truthy (JObj kv) = True"

text \<open>
  \<open>data.name\<close> for the property names the script reads (\<open>answer\<close>, \<open>response\<close>,
  \<open>source\<close>; none of them is inherited from a prototype): reading a property of
  \<open>null\<close> or \<open>undefined\<close> throws (\<open>None\<close>), an object gives the property's value or
  \<open>undefined\<close>, every other value gives \<open>undefined\<close>.
\<close>

fun get_prop :: "jsval \<Rightarrow> jstring \<Rightarrow> jsval option" where
  "get_prop JUndefined name = None"
| "get_prop JNull name = None"
| "get_prop (JObj kv) name = (case map_of kv name of None \<Rightarrow> Some JUndefined | Some v \<Rightarrow> Some v)"
| "get_prop v name = Some JUndefined"

text \<open>
  What the script leaves to the browser: the message of the error thrown by a property read
  on \<open>null\<close>; the conversion of a value to a string inside a template literal (\<open>Inl\<close>
  carries the message of the error it throws when the value has no primitive form); and what
  reading \<open>element.innerText\<close> returns for an element that holds a given text. The
  getter of \<open>innerText\<close> returns the text as it is rendered, which depends on the style
  sheet of the page (not part of the script): under \<open>white-space: normal\<close> a space at the
  end of the text is not part of the rendered text, under \<open>white-space: pre-wrap\<close>, and for
  an element that is not rendered, the text is returned as it was assigned. A theorem that
  does not restrict the engine holds for every engine.
\<close>

record engine =
  prop_error_message :: "jstring \<Rightarrow> jstring"
  to_string :: "jsval \<Rightarrow> jstring + jstring"
  rendered_text :: "nat \<Rightarrow> jstring \<Rightarrow> jstring"

section \<open>The page\<close>

text \<open>
  An element created by \<open>document.createElement\<close> is a cell of the store \<open>nodes\<close>,
  named by the number it was created under; \<open>innerText\<close> is the text last assigned
  to the element, and \<open>kids\<close> are its child elements.
\<close>

record node =
  tag :: jstring
  className :: jstring
  innerText :: jstring
  marginLeft :: jstring
  kids :: "nat list"

text \<open>
  The callback of a running interval, with the variables it closes over:
  \<open>Dots dots i\<close> is the one of \<open>addTypingIndicator\<close>, \<open>Reveal element text i\<close> the one of
  \<open>typeText\<close>.
\<close>

datatype timer =
    Dots nat nat
  | Reveal nat jsval nat

text \<open>
  Where a call of \<open>sendMessage\<close> is suspended: at \<open>await fetch(...)\<close>, at
  \<open>await res.json()\<close>, at \<open>await typeText(botEl, replyText, 14)\<close> (with \<open>botEl\<close>,
  \<open>data\<close> and the interval whose callback resolves the awaited promise), or returned.
\<close>

datatype phase =
    AwaitFetch
  | AwaitJson
  | AwaitReveal nat jsval nat
  | Finished

record task =
  typing_el :: nat
  typing_int :: nat
  phase :: phase

text \<open>
  The operations on the chat log, the timers and the network, in the order the script
  performs them.
\<close>

datatype effect =
    AppendChat nat
  | RemoveNode nat
  | SetInterval nat
  | ClearInterval nat
  | Fetch jstring jstring

record page =
  input_value :: jstring
  btn_disabled :: bool
  btn_color :: jstring
  nodes :: "nat \<Rightarrow> node"
  next_node :: nat
  chat_kids :: "nat list"
  scrolls :: nat
  timers :: "(nat \<times> nat \<times> timer) list"
  next_timer :: nat
  tasks :: "task list"
  effects :: "effect list"

definition API_URL :: jstring where
  "API_URL = lit ''https://your-backend.onrender.com/chat''"

subsection \<open>Primitives of the document and of the timers\<close>

definition createElement :: "page \<Rightarrow> jstring \<Rightarrow> page \<times> nat" where
  "createElement s tg =
     (s\<lparr>nodes := (nodes s)(next_node s :=
           \<lparr>tag = tg, className = [], innerText = [], marginLeft = [], kids = []\<rparr>),
        next_node := Suc (next_node s)\<rparr>,
      next_node s)"

definition set_className :: "page \<Rightarrow> nat \<Rightarrow> jstring \<Rightarrow> page" where
  "set_className s n c = s\<lparr>nodes := (nodes s)(n := (nodes s n)\<lparr>className := c\<rparr>)\<rparr>"

text \<open>Assigning \<open>innerText\<close> replaces the element's content by the text.\<close>

definition set_innerText :: "page \<Rightarrow> nat \<Rightarrow> jstring \<Rightarrow> page" where
  "set_innerText s n t = s\<lparr>nodes := (nodes s)(n := (nodes s n)\<lparr>innerText := t, kids := []\<rparr>)\<rparr>"

definition set_marginLeft :: "page \<Rightarrow> nat \<Rightarrow> jstring \<Rightarrow> page" where
  "set_marginLeft s n m = s\<lparr>nodes := (nodes s)(n := (nodes s n)\<lparr>marginLeft := m\<rparr>)\<rparr>"

definition appendChild :: "page \<Rightarrow> nat \<Rightarrow> nat \<Rightarrow> page" where
  "appendChild s parent child =
     s\<lparr>nodes := (nodes s)(parent := (nodes s parent)\<lparr>kids := kids (nodes s parent) @ [child]\<rparr>)\<rparr>"

text \<open>\<open>chatBox.appendChild(el)\<close>; the script only appends elements it has just created.\<close>

definition chatBox_appendChild :: "page \<Rightarrow> nat \<Rightarrow> page" where
  "chatBox_appendChild s child =
     s\<lparr>chat_kids := chat_kids s @ [child], effects := effects s @ [AppendChat child]\<rparr>"

text \<open>\<open>chatBox.scrollTop = chatBox.scrollHeight\<close>, counted.\<close>

definition scrollToBottom :: "page \<Rightarrow> page" where
  "scrollToBottom s = s\<lparr>scrolls := Suc (scrolls s)\<rparr>"

text \<open>\<open>el.remove()\<close> for an element whose parent, if any, is the chat box.\<close>

definition remove_node :: "page \<Rightarrow> nat \<Rightarrow> page" where
  "remove_node s n =
     s\<lparr>chat_kids := removeAll n (chat_kids s), effects := effects s @ [RemoveNode n]\<rparr>"

definition setInterval :: "page \<Rightarrow> timer \<Rightarrow> nat \<Rightarrow> page \<times> nat" where
  "setInterval s cb period =
     (s\<lparr>timers := timers s @ [(next_timer s, period, cb)],
        next_timer := Suc (next_timer s),
        effects := effects s @ [SetInterval (next_timer s)]\<rparr>,
      next_timer s)"

definition clearInterval :: "page \<Rightarrow> nat \<Rightarrow> page" where
  "clearInterval s k =
     s\<lparr>timers := filter (\<lambda>e. fst e \<noteq> k) (timers s),
       effects := effects s @ [ClearInterval k]\<rparr>"

text \<open>A callback's write to a variable it closes over.\<close>

definition set_timer :: "page \<Rightarrow> nat \<Rightarrow> timer \<Rightarrow> page" where
  "set_timer s k cb =
     s\<lparr>timers := map (\<lambda>e. if fst e = k then (k, fst (snd e), cb) else e) (timers s)\<rparr>"

subsection \<open>addMessage, addTypingIndicator, typeText\<close>

definition addMessage :: "page \<Rightarrow> jstring \<Rightarrow> jstring \<Rightarrow> page \<times> nat" where
  "addMessage s text cls =
     (case createElement s (lit ''div'') of (s1, el) \<Rightarrow>
        let s2 = set_className s1 el (lit ''message '' @ cls);
            s3 = set_innerText s2 el text;
            s4 = chatBox_appendChild s3 el;
            s5 = scrollToBottom s4
        in (s5, el))"

definition addTypingIndicator :: "page \<Rightarrow> page \<times> nat \<times> nat" where
  "addTypingIndicator s =
     (case createElement s (lit ''div'') of (s1, el) \<Rightarrow>
        let s2 = set_className s1 el (lit ''message bot typing'');
            s3 = set_innerText s2 el (lit ''Bot is typing'')
        in case createElement s3 (lit ''span'') of (s4, dots) \<Rightarrow>
        let s5 = set_marginLeft s4 dots (lit ''6px'');
            s6 = appendChild s5 el dots;
            s7 = chatBox_appendChild s6 el
        in case setInterval s7 (Dots dots 0) 400 of (s8, timer_id) \<Rightarrow>
        let s9 = scrollToBottom s8
        in (s9, el, timer_id))"

text \<open>The callback of \<open>addTypingIndicator\<close>: \<open>dots.innerText = ".".repeat(i%4); i++\<close>.\<close>

definition dots_tick :: "page \<Rightarrow> nat \<Rightarrow> nat \<Rightarrow> nat \<Rightarrow> page" where
  "dots_tick s k dots i =
     set_timer (set_innerText s dots (replicate (i mod 4) (of_char CHR ''.''))) k (Dots dots (Suc i))"

text \<open>
  \<open>typeText(element, text, interval)\<close> clears the element and starts the interval; the
  promise it returns is named by the interval's number.
\<close>

definition typeText :: "page \<Rightarrow> nat \<Rightarrow> jsval \<Rightarrow> nat \<Rightarrow> page \<times> nat" where
  "typeText s element text interval =
     setInterval (set_innerText s element []) (Reveal element text 0) interval"

text \<open>
  The callback of \<open>typeText\<close>; the flag says whether it called \<open>resolve()\<close>. The
  statement \<open>element.innerText += text.charAt(i)\<close> reads the text through the getter and
  assigns the result with the character appended. When
  \<open>text\<close> is not a string, \<open>text.charAt\<close> is not a function: the callback throws
  before it writes anything, at every tick.
\<close>

definition reveal_tick :: "engine \<Rightarrow> page \<Rightarrow> nat \<Rightarrow> nat \<Rightarrow> jsval \<Rightarrow> nat \<Rightarrow> page \<times> bool" where
  "reveal_tick E s k element text i =
     (case text of
        JStr t \<Rightarrow>
          let s1 = set_innerText s element
                     (rendered_text E element (innerText (nodes s element)) @ charAt t i);
              s2 = set_timer s1 k (Reveal element text (Suc i));
              s3 = scrollToBottom s2
          in if Suc i \<ge> length t then (clearInterval s3 k, True) else (s3, False)
      | _ \<Rightarrow> (s, False))"

subsection \<open>sendMessage\<close>

definition error_marker :: jstring where
  "error_marker = [0x26A0, 0xFE0F] @ lit '' Error connecting to server: ''"

text \<open>\<open>data.answer || data.response || "No reply"\<close>; \<open>None\<close> when reading \<open>data.answer\<close> throws.\<close>

definition replyText :: "jsval \<Rightarrow> jsval option" where
  "replyText data =
     (case get_prop data (lit ''answer'') of
        None \<Rightarrow> None
      | Some a \<Rightarrow>
          if truthy a then Some a
          else (case get_prop data (lit ''response'') of
                  None \<Rightarrow> None
                | Some r \<Rightarrow> if truthy r then Some r else Some (JStr (lit ''No reply''))))"

text \<open>The last two statements of \<open>sendMessage\<close>, and its return.\<close>

definition sendMessage_end :: "page \<Rightarrow> nat \<Rightarrow> page" where
  "sendMessage_end s t =
     s\<lparr>btn_disabled := False, btn_color := [],
       tasks := (tasks s)[t := (tasks s ! t)\<lparr>phase := Finished\<rparr>]\<rparr>"

text \<open>The \<open>catch\<close> block, followed by the end of the function.\<close>

definition sendMessage_catch :: "page \<Rightarrow> nat \<Rightarrow> jstring \<Rightarrow> page" where
  "sendMessage_catch s t message =
     (let s1 = clearInterval s (typing_int (tasks s ! t));
          s2 = remove_node s1 (typing_el (tasks s ! t))
      in case addMessage s2 (error_marker @ message) (lit ''bot'') of (s3, el) \<Rightarrow>
         sendMessage_end s3 t)"

text \<open>From the start of \<open>sendMessage\<close> to \<open>await fetch(...)\<close>.\<close>

definition sendMessage :: "page \<Rightarrow> page" where
  "sendMessage s =
     (let text = trim (input_value s) in
      if text = [] then s
      else
        let s1 = s\<lparr>btn_disabled := True, btn_color := lit ''#ccc''\<rparr>
        in case addMessage s1 text (lit ''user'') of (s2, el) \<Rightarrow>
        let s3 = s2\<lparr>input_value := []\<rparr>
        in case addTypingIndicator s3 of (s4, typing) \<Rightarrow>
        let s5 = s4\<lparr>effects := effects s4 @ [Fetch API_URL text]\<rparr>
        in s5\<lparr>tasks := tasks s5 @ [\<lparr>typing_el = fst typing, typing_int = snd typing, phase = AwaitFetch\<rparr>]\<rparr>)"

text \<open>From the value of \<open>await res.json()\<close> to \<open>await typeText(...)\<close>.\<close>

definition sendMessage_data :: "engine \<Rightarrow> page \<Rightarrow> nat \<Rightarrow> jsval \<Rightarrow> page" where
  "sendMessage_data E s t data =
     (let s1 = clearInterval s (typing_int (tasks s ! t));
          s2 = remove_node s1 (typing_el (tasks s ! t))
      in case createElement s2 (lit ''div'') of (s3, botEl) \<Rightarrow>
      (let s4 = set_className s3 botEl (lit ''message bot'');
           s5 = chatBox_appendChild s4 botEl
       in (case replyText data of
             None \<Rightarrow> sendMessage_catch s5 t (prop_error_message E (lit ''answer''))
           | Some reply \<Rightarrow>
               (case typeText s5 botEl reply 14 of (s6, k) \<Rightarrow>
                  s6\<lparr>tasks := (tasks s6)[t := (tasks s6 ! t)\<lparr>phase := AwaitReveal botEl data k\<rparr>]\<rparr>))))"

text \<open>The text of the source note: \<open>data.source ? ` (${data.source})` : ""\<close>.\<close>

definition note_text :: "engine \<Rightarrow> jsval \<Rightarrow> jstring + jstring" where
  "note_text E data =
     (case get_prop data (lit ''source'') of
        None \<Rightarrow> Inl (prop_error_message E (lit ''source''))
      | Some src \<Rightarrow>
          if truthy src
          then (case to_string E src of
                  Inl m \<Rightarrow> Inl m
                | Inr str \<Rightarrow> Inr (lit '' ('' @ str @ lit '')''))
          else Inr [])"

text \<open>From the resolution of \<open>typeText\<close>'s promise to the end of \<open>sendMessage\<close>.\<close>

definition sendMessage_revealed :: "engine \<Rightarrow> page \<Rightarrow> nat \<Rightarrow> nat \<Rightarrow> jsval \<Rightarrow> page" where
  "sendMessage_revealed E s t botEl data =
     (case createElement s (lit ''small'') of (s1, note) \<Rightarrow>
        (case note_text E data of
           Inl m \<Rightarrow> sendMessage_catch s1 t m
         | Inr txt \<Rightarrow>
             (let s2 = set_innerText s1 note txt
              in case createElement s2 (lit ''br'') of (s3, br) \<Rightarrow>
              (let s4 = appendChild s3 botEl br;
                   s5 = appendChild s4 botEl note;
                   s6 = scrollToBottom s5
               in sendMessage_end s6 t))))"

subsection \<open>The event loop\<close>

text \<open>
  What the browser delivers to the script: an edit of the input field, a click on the send
  button, a key pressed in the input field, the firing of an interval, and the settlement
  of the promises of \<open>fetch\<close> (with the response's status) and of \<open>res.json()\<close> for a
  suspended call of \<open>sendMessage\<close>.
\<close>

datatype event =
    Edit jstring
  | Click
  | Keydown jstring
  | Tick nat
  | FetchResolve nat nat
  | FetchReject nat jstring
  | JsonResolve nat jsval
  | JsonReject nat jstring

text \<open>The call of \<open>sendMessage\<close> that awaits the promise of interval \<open>k\<close>.\<close>

definition awaits :: "nat \<Rightarrow> task \<Rightarrow> bool" where
  "awaits k tk = (case phase tk of AwaitReveal b d k' \<Rightarrow> k' = k | _ \<Rightarrow> False)"

fun find_task :: "(task \<Rightarrow> bool) \<Rightarrow> task list \<Rightarrow> nat \<Rightarrow> nat option" where
  "find_task P [] n = None"
| "find_task P (tk # tks) n = (if P tk then Some n else find_task P tks (Suc n))"

definition resume_reveal :: "engine \<Rightarrow> page \<Rightarrow> nat \<Rightarrow> page" where
  "resume_reveal E s k =
     (case find_task (awaits k) (tasks s) 0 of
        None \<Rightarrow> s
      | Some t \<Rightarrow>
          (case phase (tasks s ! t) of
             AwaitReveal botEl data k' \<Rightarrow> sendMessage_revealed E s t botEl data
           | _ \<Rightarrow> s))"

text \<open>The callback of interval \<open>k\<close> runs, if the interval is still set.\<close>

definition fire_interval :: "engine \<Rightarrow> page \<Rightarrow> nat \<Rightarrow> page \<times> bool" where
  "fire_interval E s k =
     (case map_of (timers s) k of
        None \<Rightarrow> (s, False)
      | Some (period, Dots dots i) \<Rightarrow> (dots_tick s k dots i, False)
      | Some (period, Reveal element text i) \<Rightarrow> reveal_tick E s k element text i)"

definition in_phase :: "page \<Rightarrow> nat \<Rightarrow> phase \<Rightarrow> bool" where
  "in_phase s t p = (t < length (tasks s) \<and> phase (tasks s ! t) = p)"

text \<open>
  One turn of the event loop. A click is dispatched to the listener of line 8 only when the
  button is not disabled (the browser sends no click event to a disabled button); the
  listener of line 9 runs on every key pressed in the input field, which is never disabled.
  The continuation of an \<open>await\<close> runs in the turn that settles its promise.
\<close>

definition step :: "engine \<Rightarrow> page \<Rightarrow> event \<Rightarrow> page" where
  "step E s ev =
     (case ev of
        Edit v \<Rightarrow> s\<lparr>input_value := v\<rparr>
      | Click \<Rightarrow> if btn_disabled s then s else sendMessage s
      | Keydown key \<Rightarrow> if key = lit ''Enter'' then sendMessage s else s
      | Tick k \<Rightarrow>
          (case fire_interval E s k of
             (s1, resolved) \<Rightarrow> if resolved then resume_reveal E s1 k else s1)
      | FetchResolve t status \<Rightarrow>
          if in_phase s t AwaitFetch
          then s\<lparr>tasks := (tasks s)[t := (tasks s ! t)\<lparr>phase := AwaitJson\<rparr>]\<rparr>
          else s
      | FetchReject t message \<Rightarrow>
          if in_phase s t AwaitFetch then sendMessage_catch s t message else s
      | JsonResolve t data \<Rightarrow>
          if in_phase s t AwaitJson then sendMessage_data E s t data else s
      | JsonReject t message \<Rightarrow>
          if in_phase s t AwaitJson then sendMessage_catch s t message else s)"

fun run :: "engine \<Rightarrow> page \<Rightarrow> event list \<Rightarrow> page" where
  "run E s [] = s"
| "run E s (ev # evs) = run E (step E s ev) evs"

text \<open>
  A page as the script finds it when it is loaded: no call of \<open>sendMessage\<close> has been
  made, no interval runs, the send button is enabled, and the elements of the chat box were
  created before.
\<close>

definition loaded :: "page \<Rightarrow> bool" where
  "loaded s =
     (tasks s = [] \<and> timers s = [] \<and> \<not> btn_disabled s \<and>
      list_all (\<lambda>n. n < next_node s) (chat_kids s))"

text \<open>The empty page: nothing in the chat box, nothing in the input field.\<close>

definition empty_page :: page where
  "empty_page =
     \<lparr>input_value = [], btn_disabled = False, btn_color = [],
      nodes = (\<lambda>n. \<lparr>tag = [], className = [], innerText = [], marginLeft = [], kids = []\<rparr>),
      next_node = 0, chat_kids = [], scrolls = 0, timers = [], next_timer = 0,
      tasks = [], effects = []\<rparr>"


section \<open>Timers and the calls that own them\<close>

definition timer_ids :: "page \<Rightarrow> nat list" where
  "timer_ids s = map fst (timers s)"

text \<open>
  A suspended call owns the interval of its typing indicator until \<open>res.json()\<close> has
  settled, and then the interval of the reveal it awaits; a returned call owns none.
\<close>

definition owns :: "task \<Rightarrow> nat \<Rightarrow> bool" where
  "owns tk k =
     (case phase tk of
        AwaitFetch \<Rightarrow> typing_int tk = k
      | AwaitJson \<Rightarrow> typing_int tk = k
      | AwaitReveal b d k' \<Rightarrow> k' = k
      | Finished \<Rightarrow> False)"

text \<open>
  The elements and intervals a call refers to were created before; once the response has
  been read, and from then on, the interval of its typing indicator is not set.
\<close>

definition task_ok :: "page \<Rightarrow> task \<Rightarrow> bool" where
  "task_ok s tk =
     (typing_el tk < next_node s \<and> typing_int tk < next_timer s \<and>
      (case phase tk of
         AwaitFetch \<Rightarrow> True
       | AwaitJson \<Rightarrow> True
       | AwaitReveal b d k \<Rightarrow> k < next_timer s \<and> typing_int tk \<notin> set (timer_ids s)
       | Finished \<Rightarrow> typing_int tk \<notin> set (timer_ids s)))"

definition page_ok :: "page \<Rightarrow> bool" where
  "page_ok s =
     ((\<forall>t < length (tasks s). task_ok s (tasks s ! t)) \<and>
      (\<forall>k \<in> set (timer_ids s). k < next_timer s \<and> (\<exists>t < length (tasks s). owns (tasks s ! t) k)) \<and>
      (\<forall>n \<in> set (chat_kids s). n < next_node s))"

text \<open>
  The calls of \<open>sendMessage\<close> that have not returned; the send button guards when at
  most one call is pending and the button is disabled exactly while one is.
\<close>

definition pending :: "page \<Rightarrow> task list" where
  "pending s = filter (\<lambda>tk. phase tk \<noteq> Finished) (tasks s)"

definition guarded :: "page \<Rightarrow> bool" where
  "guarded s = (length (pending s) \<le> 1 \<and> (btn_disabled s \<longleftrightarrow> pending s \<noteq> []))"


section \<open>Predicates of the proofs\<close>


text \<open>
  What a turn of the event loop does to the effects, from the page \<open>s\<close> before it to the
  page \<open>s'\<close> after it: either it runs one pending call of \<open>sendMessage\<close>, which moves to
  another phase and stops its typing indicator (clears its interval, then removes its
  placeholder) having appended nothing to the chat box before, while the other calls stay as
  they are; or it appends no element of class \<open>message bot\<close> at all.
\<close>

definition stops_typing :: "page \<Rightarrow> page \<Rightarrow> bool" where
  "stops_typing s s' =
     (\<exists>t pre rest. t < length (tasks s) \<and>
        effects s' = effects s @ pre @ [ClearInterval (typing_int (tasks s ! t)),
                                        RemoveNode (typing_el (tasks s ! t))] @ rest \<and>
        (\<forall>b. AppendChat b \<notin> set pre) \<and>
        typing_int (tasks s ! t) \<notin> set (timer_ids s') \<and>
        typing_el (tasks s ! t) \<notin> set (chat_kids s') \<and>
        phase (tasks s ! t) \<noteq> Finished \<and>
        (\<exists>p. p \<noteq> phase (tasks s ! t) \<and> tasks s' = (tasks s)[t := (tasks s ! t)\<lparr>phase := p\<rparr>]))"

definition no_bot_message :: "page \<Rightarrow> page \<Rightarrow> bool" where
  "no_bot_message s s' =
     (\<exists>new. effects s' = effects s @ new \<and>
        (\<forall>b. AppendChat b \<in> set new \<longrightarrow> className (nodes s' b) \<noteq> lit ''message bot''))"

text \<open>
  No two calls of \<open>sendMessage\<close> wait for the same reveal: the interval of a reveal is
  created by the call that then awaits its promise.
\<close>

definition single_waiter :: "page \<Rightarrow> bool" where
  "single_waiter s =
     (\<forall>t < length (tasks s). \<forall>t' < length (tasks s). \<forall>k.
        awaits k (tasks s ! t) \<and> awaits k (tasks s ! t') \<longrightarrow> t = t')"

text \<open>
  How a turn of the event loop changes the chat box, from the page \<open>s\<close> before it to the
  page \<open>s'\<close> after it: it removes placeholders of typing indicators only, and appends
  newly created elements at the end.
\<close>

definition log_grows :: "page \<Rightarrow> page \<Rightarrow> bool" where
  "log_grows s s' =
     (next_node s \<le> next_node s' \<and>
      (\<forall>t < length (tasks s').
         t < length (tasks s) \<and> typing_el (tasks s' ! t) = typing_el (tasks s ! t)
         \<or> next_node s \<le> typing_el (tasks s' ! t)) \<and>
      (\<exists>R new. chat_kids s' = filter (\<lambda>n. n \<notin> R) (chat_kids s) @ new \<and>
         (\<forall>r \<in> R. \<exists>t < length (tasks s). r = typing_el (tasks s ! t)) \<and>
         (\<forall>n \<in> set new. next_node s \<le> n)))"

text \<open>
  The element \<open>u\<close> is in the chat box; the elements before it are among \<open>A\<close>, the
  elements after it were created after it; no typing indicator has it as placeholder.
\<close>

definition stays_first :: "nat \<Rightarrow> nat set \<Rightarrow> page \<Rightarrow> bool" where
  "stays_first u A s =
     (u < next_node s \<and>
      (\<forall>t < length (tasks s). typing_el (tasks s ! t) \<noteq> u) \<and>
      (\<exists>pre post. chat_kids s = pre @ u # post \<and> set pre \<subseteq> A \<and> (\<forall>n \<in> set post. u < n)))"

section \<open>Literals\<close>

lemma of_char_16_eq_iff: "(of_char c :: 16 word) = of_char d \<longleftrightarrow> c = d"
proof
  assume h: "(of_char c :: 16 word) = of_char d"
  have a: "unat (of_char x :: 16 word) = of_char x" for x
  proof -
    have "(of_char x :: 16 word) = of_nat (of_char x)"
      by (simp add: of_nat_of_char)
    then have "unat (of_char x :: 16 word) = (of_char x :: nat) mod 2 ^ 16"
      by (simp add: unat_of_nat)
    moreover have "(of_char x :: nat) < 256"
      by (rule nat_of_char_less_256)
    ultimately show ?thesis by simp
  qed
  from h have "unat (of_char c :: 16 word) = unat (of_char d :: 16 word)"
    by simp
  then show "c = d"
    by (simp add: a)
qed simp

lemma lit_eq_iff: "lit a = lit b \<longleftrightarrow> a = b"
  unfolding lit_def by (simp add: inj_on_def of_char_16_eq_iff)

lemma lit_Nil_iff: "lit a = [] \<longleftrightarrow> a = []"
  by (simp add: lit_def)

section \<open>What each part of the script does to the page\<close>

lemmas dom_defs =
  createElement_def set_className_def set_innerText_def set_marginLeft_def appendChild_def
  chatBox_appendChild_def scrollToBottom_def remove_node_def setInterval_def clearInterval_def
  set_timer_def

lemma lit_append: "lit a @ lit b = lit (a @ b)"
  by (simp add: lit_def)

lemma map_fst_set_timer:
  "map fst (map (\<lambda>e. if fst e = k then (k, fst (snd e), cb) else e) ts) = map fst ts"
  by (induction ts) auto

lemma sendMessage_catch_fields:
  "chat_kids (sendMessage_catch s t m) = removeAll (typing_el (tasks s ! t)) (chat_kids s) @ [next_node s]"
  "timers (sendMessage_catch s t m) = filter (\<lambda>e. fst e \<noteq> typing_int (tasks s ! t)) (timers s)"
  "tasks (sendMessage_catch s t m) = (tasks s)[t := (tasks s ! t)\<lparr>phase := Finished\<rparr>]"
  "next_node (sendMessage_catch s t m) = Suc (next_node s)"
  "next_timer (sendMessage_catch s t m) = next_timer s"
  "effects (sendMessage_catch s t m) =
     effects s @ [ClearInterval (typing_int (tasks s ! t)), RemoveNode (typing_el (tasks s ! t)),
                  AppendChat (next_node s)]"
  "btn_disabled (sendMessage_catch s t m) = False"
  "input_value (sendMessage_catch s t m) = input_value s"
  "nodes (sendMessage_catch s t m) =
     (nodes s)(next_node s := \<lparr>tag = lit ''div'', className = lit ''message bot'',
        innerText = error_marker @ m, marginLeft = [], kids = []\<rparr>)"
  by (simp_all add: sendMessage_catch_def sendMessage_end_def addMessage_def dom_defs Let_def lit_append)

lemma sendMessage_fields:
  assumes "trim (input_value s) \<noteq> []"
  shows
  "chat_kids (sendMessage s) = chat_kids s @ [next_node s, Suc (next_node s)]"
  "timers (sendMessage s) = timers s @ [(next_timer s, 400, Dots (Suc (Suc (next_node s))) 0)]"
  "tasks (sendMessage s) =
     tasks s @ [\<lparr>typing_el = Suc (next_node s), typing_int = next_timer s, phase = AwaitFetch\<rparr>]"
  "next_node (sendMessage s) = Suc (Suc (Suc (next_node s)))"
  "next_timer (sendMessage s) = Suc (next_timer s)"
  "effects (sendMessage s) =
     effects s @ [AppendChat (next_node s), AppendChat (Suc (next_node s)),
                  SetInterval (next_timer s), Fetch API_URL (trim (input_value s))]"
  "btn_disabled (sendMessage s) = True"
  "input_value (sendMessage s) = []"
  "nodes (sendMessage s) =
     (nodes s)
       (next_node s := \<lparr>tag = lit ''div'', className = lit ''message user'',
          innerText = trim (input_value s), marginLeft = [], kids = []\<rparr>,
        Suc (Suc (next_node s)) := \<lparr>tag = lit ''span'', className = [],
          innerText = [], marginLeft = lit ''6px'', kids = []\<rparr>,
        Suc (next_node s) := \<lparr>tag = lit ''div'', className = lit ''message bot typing'',
          innerText = lit ''Bot is typing'', marginLeft = [], kids = [Suc (Suc (next_node s))]\<rparr>)"
  using assms
  by (simp_all add: sendMessage_def addMessage_def addTypingIndicator_def dom_defs Let_def lit_append)

lemma sendMessage_data_reply_fields:
  assumes "replyText data = Some reply"
  shows
  "chat_kids (sendMessage_data E s t data) =
     removeAll (typing_el (tasks s ! t)) (chat_kids s) @ [next_node s]"
  "timers (sendMessage_data E s t data) =
     filter (\<lambda>e. fst e \<noteq> typing_int (tasks s ! t)) (timers s)
       @ [(next_timer s, 14, Reveal (next_node s) reply 0)]"
  "tasks (sendMessage_data E s t data) =
     (tasks s)[t := (tasks s ! t)\<lparr>phase := AwaitReveal (next_node s) data (next_timer s)\<rparr>]"
  "next_node (sendMessage_data E s t data) = Suc (next_node s)"
  "next_timer (sendMessage_data E s t data) = Suc (next_timer s)"
  "effects (sendMessage_data E s t data) =
     effects s @ [ClearInterval (typing_int (tasks s ! t)), RemoveNode (typing_el (tasks s ! t)),
                  AppendChat (next_node s), SetInterval (next_timer s)]"
  "btn_disabled (sendMessage_data E s t data) = btn_disabled s"
  "input_value (sendMessage_data E s t data) = input_value s"
  "nodes (sendMessage_data E s t data) =
     (nodes s)(next_node s := \<lparr>tag = lit ''div'', className = lit ''message bot'',
        innerText = [], marginLeft = [], kids = []\<rparr>)"
  using assms
  by (simp_all add: sendMessage_data_def typeText_def dom_defs Let_def)

lemma sendMessage_data_throw_fields:
  assumes "replyText data = None"
  shows
  "chat_kids (sendMessage_data E s t data) =
     removeAll (typing_el (tasks s ! t))
       (removeAll (typing_el (tasks s ! t)) (chat_kids s) @ [next_node s])
     @ [Suc (next_node s)]"
  "timers (sendMessage_data E s t data) =
     filter (\<lambda>e. fst e \<noteq> typing_int (tasks s ! t)) (timers s)"
  "tasks (sendMessage_data E s t data) = (tasks s)[t := (tasks s ! t)\<lparr>phase := Finished\<rparr>]"
  "next_node (sendMessage_data E s t data) = Suc (Suc (next_node s))"
  "next_timer (sendMessage_data E s t data) = next_timer s"
  "effects (sendMessage_data E s t data) =
     effects s @ [ClearInterval (typing_int (tasks s ! t)), RemoveNode (typing_el (tasks s ! t)),
                  AppendChat (next_node s),
                  ClearInterval (typing_int (tasks s ! t)), RemoveNode (typing_el (tasks s ! t)),
                  AppendChat (Suc (next_node s))]"
  "btn_disabled (sendMessage_data E s t data) = False"
  "input_value (sendMessage_data E s t data) = input_value s"
  "nodes (sendMessage_data E s t data) =
     (nodes s)(next_node s := \<lparr>tag = lit ''div'', className = lit ''message bot'',
        innerText = [], marginLeft = [], kids = []\<rparr>,
      Suc (next_node s) := \<lparr>tag = lit ''div'', className = lit ''message bot'',
        innerText = error_marker @ prop_error_message E (lit ''answer''), marginLeft = [], kids = []\<rparr>)"
  using assms
  by (simp_all add: sendMessage_data_def sendMessage_catch_def sendMessage_end_def addMessage_def
      dom_defs Let_def lit_append)

lemma sendMessage_revealed_ok_fields:
  assumes "note_text E data = Inr txt"
  shows
  "chat_kids (sendMessage_revealed E s t botEl data) = chat_kids s"
  "timers (sendMessage_revealed E s t botEl data) = timers s"
  "tasks (sendMessage_revealed E s t botEl data) = (tasks s)[t := (tasks s ! t)\<lparr>phase := Finished\<rparr>]"
  "next_node (sendMessage_revealed E s t botEl data) = Suc (Suc (next_node s))"
  "next_timer (sendMessage_revealed E s t botEl data) = next_timer s"
  "effects (sendMessage_revealed E s t botEl data) = effects s"
  "btn_disabled (sendMessage_revealed E s t botEl data) = False"
  "input_value (sendMessage_revealed E s t botEl data) = input_value s"
  using assms
  by (simp_all add: sendMessage_revealed_def sendMessage_end_def dom_defs Let_def)

lemma sendMessage_revealed_throw_fields:
  assumes "note_text E data = Inl m"
  shows
  "chat_kids (sendMessage_revealed E s t botEl data) =
     removeAll (typing_el (tasks s ! t)) (chat_kids s) @ [Suc (next_node s)]"
  "timers (sendMessage_revealed E s t botEl data) =
     filter (\<lambda>e. fst e \<noteq> typing_int (tasks s ! t)) (timers s)"
  "tasks (sendMessage_revealed E s t botEl data) = (tasks s)[t := (tasks s ! t)\<lparr>phase := Finished\<rparr>]"
  "next_node (sendMessage_revealed E s t botEl data) = Suc (Suc (next_node s))"
  "next_timer (sendMessage_revealed E s t botEl data) = next_timer s"
  "effects (sendMessage_revealed E s t botEl data) =
     effects s @ [ClearInterval (typing_int (tasks s ! t)), RemoveNode (typing_el (tasks s ! t)),
                  AppendChat (Suc (next_node s))]"
  "btn_disabled (sendMessage_revealed E s t botEl data) = False"
  "input_value (sendMessage_revealed E s t botEl data) = input_value s"
  "className (nodes (sendMessage_revealed E s t botEl data) (Suc (next_node s))) = lit ''message bot''"
  "innerText (nodes (sendMessage_revealed E s t botEl data) (Suc (next_node s))) = error_marker @ m"
  using assms
  by (simp_all add: sendMessage_revealed_def sendMessage_catch_def sendMessage_end_def addMessage_def
      dom_defs Let_def lit_append)

lemma dots_tick_fields:
  "chat_kids (dots_tick s k dots i) = chat_kids s"
  "timers (dots_tick s k dots i) =
     map (\<lambda>e. if fst e = k then (k, fst (snd e), Dots dots (Suc i)) else e) (timers s)"
  "tasks (dots_tick s k dots i) = tasks s"
  "next_node (dots_tick s k dots i) = next_node s"
  "next_timer (dots_tick s k dots i) = next_timer s"
  "effects (dots_tick s k dots i) = effects s"
  "btn_disabled (dots_tick s k dots i) = btn_disabled s"
  "input_value (dots_tick s k dots i) = input_value s"
  by (simp_all add: dots_tick_def dom_defs)

lemma reveal_tick_fields:
  "chat_kids (fst (reveal_tick E s k el text i)) = chat_kids s"
  "tasks (fst (reveal_tick E s k el text i)) = tasks s"
  "next_node (fst (reveal_tick E s k el text i)) = next_node s"
  "next_timer (fst (reveal_tick E s k el text i)) = next_timer s"
  "btn_disabled (fst (reveal_tick E s k el text i)) = btn_disabled s"
  "input_value (fst (reveal_tick E s k el text i)) = input_value s"
  "effects (fst (reveal_tick E s k el text i)) =
     (if snd (reveal_tick E s k el text i) then effects s @ [ClearInterval k] else effects s)"
  "timer_ids (fst (reveal_tick E s k el text i)) =
     (if snd (reveal_tick E s k el text i) then filter (\<lambda>k'. k' \<noteq> k) (timer_ids s)
      else timer_ids s)"
  by (simp_all add: reveal_tick_def dom_defs Let_def timer_ids_def map_fst_set_timer filter_map
      comp_def split: jsval.splits)


section \<open>An invariant of the event loop\<close>

lemma find_task_Some:
  "find_task P tks n = Some t \<Longrightarrow> n \<le> t \<and> t - n < length tks \<and> P (tks ! (t - n))"
proof (induction tks arbitrary: n)
  case Nil
  then show ?case by simp
next
  case (Cons tk tks)
  show ?case
  proof (cases "P tk")
    case True
    with Cons.prems show ?thesis by simp
  next
    case False
    with Cons.prems have "find_task P tks (Suc n) = Some t" by simp
    from Cons.IH [OF this] show ?thesis
      by (auto simp: nth_Cons' Suc_diff_le)
  qed
qed

lemma task_ok_frame:
  "timers s' = timers s \<Longrightarrow> next_timer s' = next_timer s \<Longrightarrow> next_node s' = next_node s \<Longrightarrow>
   task_ok s' tk = task_ok s tk"
  by (simp add: task_ok_def timer_ids_def cong: phase.case_cong)

lemma page_ok_frame:
  "tasks s' = tasks s \<Longrightarrow> timers s' = timers s \<Longrightarrow> next_timer s' = next_timer s \<Longrightarrow>
   next_node s' = next_node s \<Longrightarrow> chat_kids s' = chat_kids s \<Longrightarrow> page_ok s' = page_ok s"
  by (simp add: page_ok_def timer_ids_def task_ok_frame [of s' s])

lemma page_ok_Edit: "page_ok s \<Longrightarrow> page_ok (s\<lparr>input_value := v\<rparr>)"
  using page_ok_frame [of "s\<lparr>input_value := v\<rparr>" s] by simp

lemma owns_phase_cases:
  "owns tk k \<longleftrightarrow>
     (phase tk = AwaitFetch \<and> typing_int tk = k) \<or> (phase tk = AwaitJson \<and> typing_int tk = k) \<or>
     (\<exists>b d. phase tk = AwaitReveal b d k)"
  by (auto simp: owns_def split: phase.splits)

lemma task_ok_cases:
  "task_ok s tk \<longleftrightarrow>
     typing_el tk < next_node s \<and> typing_int tk < next_timer s \<and>
     (\<forall>b d k. phase tk = AwaitReveal b d k \<longrightarrow> k < next_timer s \<and> typing_int tk \<notin> set (timer_ids s)) \<and>
     (phase tk = Finished \<longrightarrow> typing_int tk \<notin> set (timer_ids s))"
  by (auto simp: task_ok_def split: phase.splits)

lemma page_okI:
  assumes "\<And>t. t < length (tasks s) \<Longrightarrow> task_ok s (tasks s ! t)"
    and "\<And>k. k \<in> set (timer_ids s) \<Longrightarrow> k < next_timer s"
    and "\<And>k. k \<in> set (timer_ids s) \<Longrightarrow> \<exists>t<length (tasks s). owns (tasks s ! t) k"
    and "\<And>n. n \<in> set (chat_kids s) \<Longrightarrow> n < next_node s"
  shows "page_ok s"
  using assms unfolding page_ok_def by blast

lemma page_ok_task: "page_ok s \<Longrightarrow> t < length (tasks s) \<Longrightarrow> task_ok s (tasks s ! t)"
  unfolding page_ok_def by blast

lemma page_ok_timer: "page_ok s \<Longrightarrow> k \<in> set (timer_ids s) \<Longrightarrow> k < next_timer s"
  unfolding page_ok_def by blast

lemma page_ok_owner:
  "page_ok s \<Longrightarrow> k \<in> set (timer_ids s) \<Longrightarrow> \<exists>t<length (tasks s). owns (tasks s ! t) k"
  unfolding page_ok_def by blast

lemma page_ok_chat: "page_ok s \<Longrightarrow> n \<in> set (chat_kids s) \<Longrightarrow> n < next_node s"
  unfolding page_ok_def by blast

lemma page_ok_shrink:
  assumes ok: "page_ok s"
    and "tasks s' = tasks s"
    and "set (timer_ids s') \<subseteq> set (timer_ids s)"
    and "next_timer s' = next_timer s"
    and "next_node s \<le> next_node s'"
    and "set (chat_kids s') \<subseteq> set (chat_kids s)"
  shows "page_ok s'"
proof (rule page_okI)
  fix t assume "t < length (tasks s')"
  then have t: "t < length (tasks s)" using assms by simp
  from page_ok_task [OF ok t] assms show "task_ok s' (tasks s' ! t)"
    by (auto simp: task_ok_cases)
next
  fix k assume "k \<in> set (timer_ids s')"
  then have "k \<in> set (timer_ids s)" using assms by blast
  from page_ok_timer [OF ok this] assms show "k < next_timer s'" by simp
next
  fix k assume "k \<in> set (timer_ids s')"
  then have "k \<in> set (timer_ids s)" using assms by blast
  from page_ok_owner [OF ok this] assms show "\<exists>t<length (tasks s'). owns (tasks s' ! t) k"
    by simp
next
  fix n assume "n \<in> set (chat_kids s')"
  then have "n \<in> set (chat_kids s)" using assms by blast
  from page_ok_chat [OF ok this] assms show "n < next_node s'" by simp
qed

lemma page_ok_finish:
  assumes ok: "page_ok s" and t: "t < length (tasks s)"
    and tasks': "tasks s' = (tasks s)[t := (tasks s ! t)\<lparr>phase := Finished\<rparr>]"
    and ids: "set (timer_ids s') \<subseteq> set (timer_ids s) - {typing_int (tasks s ! t)}"
    and free: "\<And>k. k \<in> set (timer_ids s') \<Longrightarrow> \<not> owns (tasks s ! t) k"
    and nt: "next_timer s' = next_timer s"
    and nn: "next_node s \<le> next_node s'"
    and chat: "\<And>n. n \<in> set (chat_kids s') \<Longrightarrow> n \<in> set (chat_kids s) \<or> n < next_node s'"
  shows "page_ok s'"
proof (rule page_okI)
  fix t' assume "t' < length (tasks s')"
  then have t': "t' < length (tasks s)" using tasks' by simp
  show "task_ok s' (tasks s' ! t')"
  proof (cases "t' = t")
    case True
    with page_ok_task [OF ok t] t ids nt nn show ?thesis
      by (auto simp: tasks' task_ok_cases)
  next
    case False
    with page_ok_task [OF ok t'] ids nt nn show ?thesis
      by (auto simp: tasks' task_ok_cases)
  qed
next
  fix k assume "k \<in> set (timer_ids s')"
  then have "k \<in> set (timer_ids s)" using ids by blast
  from page_ok_timer [OF ok this] nt show "k < next_timer s'" by simp
next
  fix k assume k: "k \<in> set (timer_ids s')"
  then have "k \<in> set (timer_ids s)" using ids by blast
  from page_ok_owner [OF ok this] obtain t' where t': "t' < length (tasks s)" "owns (tasks s ! t') k"
    by blast
  with free [OF k] have "t' \<noteq> t" by auto
  with t' show "\<exists>t'<length (tasks s'). owns (tasks s' ! t') k"
    by (intro exI [of _ t']) (simp add: tasks')
next
  fix n assume "n \<in> set (chat_kids s')"
  from chat [OF this] page_ok_chat [OF ok] nn show "n < next_node s'"
    by (auto intro: less_le_trans)
qed

lemma page_ok_catch:
  assumes ok: "page_ok s" and t: "t < length (tasks s)"
    and free: "\<And>k. k \<in> set (timer_ids s) \<Longrightarrow> k \<noteq> typing_int (tasks s ! t) \<Longrightarrow> \<not> owns (tasks s ! t) k"
  shows "page_ok (sendMessage_catch s t m)"
proof (rule page_ok_finish [OF ok t])
  show "tasks (sendMessage_catch s t m) = (tasks s)[t := (tasks s ! t)\<lparr>phase := Finished\<rparr>]"
    by (simp add: sendMessage_catch_fields)
  show "set (timer_ids (sendMessage_catch s t m)) \<subseteq> set (timer_ids s) - {typing_int (tasks s ! t)}"
    by (auto simp: sendMessage_catch_fields timer_ids_def)
  show "\<not> owns (tasks s ! t) k" if "k \<in> set (timer_ids (sendMessage_catch s t m))" for k
    using that free [of k] by (auto simp: sendMessage_catch_fields timer_ids_def)
  show "next_timer (sendMessage_catch s t m) = next_timer s"
    by (simp add: sendMessage_catch_fields)
  show "next_node s \<le> next_node (sendMessage_catch s t m)"
    by (simp add: sendMessage_catch_fields)
  show "n \<in> set (chat_kids s) \<or> n < next_node (sendMessage_catch s t m)"
    if "n \<in> set (chat_kids (sendMessage_catch s t m))" for n
    using that by (auto simp: sendMessage_catch_fields)
qed

lemma page_ok_FetchResolve:
  assumes ok: "page_ok s" and ph: "in_phase s t AwaitFetch"
  shows "page_ok (s\<lparr>tasks := (tasks s)[t := (tasks s ! t)\<lparr>phase := AwaitJson\<rparr>]\<rparr>)"
    (is "page_ok ?s")
proof (rule page_okI)
  fix t' assume "t' < length (tasks ?s)"
  then have t': "t' < length (tasks s)" by simp
  from page_ok_task [OF ok t'] page_ok_task [OF ok] ph
  show "task_ok ?s (tasks ?s ! t')"
    by (simp add: in_phase_def task_ok_cases timer_ids_def nth_list_update t')
next
  fix k assume "k \<in> set (timer_ids ?s)"
  then have "k \<in> set (timer_ids s)" by (simp add: timer_ids_def)
  from page_ok_timer [OF ok this] show "k < next_timer ?s" by simp
next
  fix k assume "k \<in> set (timer_ids ?s)"
  then have "k \<in> set (timer_ids s)" by (simp add: timer_ids_def)
  from page_ok_owner [OF ok this] obtain t' where t': "t' < length (tasks s)" "owns (tasks s ! t') k"
    by blast
  have "owns (tasks ?s ! t') k"
    using t' ph by (cases "t' = t") (simp_all add: in_phase_def owns_phase_cases)
  with t' show "\<exists>t'<length (tasks ?s). owns (tasks ?s ! t') k"
    by (intro exI [of _ t']) simp
next
  fix n assume "n \<in> set (chat_kids ?s)"
  then have "n \<in> set (chat_kids s)" by simp
  from page_ok_chat [OF ok this] show "n < next_node ?s" by simp
qed

lemma page_ok_sendMessage:
  assumes ok: "page_ok s"
  shows "page_ok (sendMessage s)"
proof (cases "trim (input_value s) = []")
  case True
  with ok show ?thesis by (simp add: sendMessage_def)
next
  case False
  note f = sendMessage_fields [OF False]
  show ?thesis
  proof (rule page_okI)
    fix t assume "t < length (tasks (sendMessage s))"
    then have "t < length (tasks s) \<or> t = length (tasks s)"
      by (auto simp: f)
    then show "task_ok (sendMessage s) (tasks (sendMessage s) ! t)"
    proof
      assume t: "t < length (tasks s)"
      from page_ok_task [OF ok t] page_ok_timer [OF ok] show ?thesis
        using t by (auto simp: f task_ok_cases timer_ids_def nth_append)
    next
      assume "t = length (tasks s)"
      then show ?thesis
        by (simp add: f task_ok_cases)
    qed
  next
    fix k assume "k \<in> set (timer_ids (sendMessage s))"
    then have "k \<in> set (timer_ids s) \<or> k = next_timer s"
      by (auto simp: f timer_ids_def)
    with page_ok_timer [OF ok] show "k < next_timer (sendMessage s)"
      by (auto simp: f less_Suc_eq)
  next
    fix k assume k: "k \<in> set (timer_ids (sendMessage s))"
    show "\<exists>t<length (tasks (sendMessage s)). owns (tasks (sendMessage s) ! t) k"
    proof (cases "k = next_timer s")
      case True
      then show ?thesis
        by (intro exI [of _ "length (tasks s)"]) (simp add: f owns_phase_cases)
    next
      case False
      with k have "k \<in> set (timer_ids s)"
        by (auto simp: f timer_ids_def)
      from page_ok_owner [OF ok this] obtain t where "t < length (tasks s)" "owns (tasks s ! t) k"
        by blast
      then show ?thesis
        by (intro exI [of _ t]) (simp add: f nth_append)
    qed
  next
    fix n assume "n \<in> set (chat_kids (sendMessage s))"
    then have "n \<in> set (chat_kids s) \<or> n = next_node s \<or> n = Suc (next_node s)"
      by (auto simp: f)
    with page_ok_chat [OF ok] show "n < next_node (sendMessage s)"
      by (auto simp: f less_Suc_eq)
  qed
qed

lemma page_ok_data:
  assumes ok: "page_ok s" and ph: "in_phase s t AwaitJson"
  shows "page_ok (sendMessage_data E s t data)"
proof (cases "replyText data")
  case None
  note f = sendMessage_data_throw_fields [OF None]
  from ph have t: "t < length (tasks s)" and p: "phase (tasks s ! t) = AwaitJson"
    by (simp_all add: in_phase_def)
  show ?thesis
  proof (rule page_ok_finish [OF ok t])
    show "tasks (sendMessage_data E s t data) = (tasks s)[t := (tasks s ! t)\<lparr>phase := Finished\<rparr>]"
      by (simp add: f)
    show "set (timer_ids (sendMessage_data E s t data)) \<subseteq> set (timer_ids s) - {typing_int (tasks s ! t)}"
      by (auto simp: f timer_ids_def)
    show "\<not> owns (tasks s ! t) k" if "k \<in> set (timer_ids (sendMessage_data E s t data))" for k
      using that p by (auto simp: f timer_ids_def owns_phase_cases)
    show "next_timer (sendMessage_data E s t data) = next_timer s"
      by (simp add: f)
    show "next_node s \<le> next_node (sendMessage_data E s t data)"
      by (simp add: f)
    show "n \<in> set (chat_kids s) \<or> n < next_node (sendMessage_data E s t data)"
      if "n \<in> set (chat_kids (sendMessage_data E s t data))" for n
      using that by (auto simp: f split: if_splits)
  qed
next
  case (Some reply)
  note f = sendMessage_data_reply_fields [OF Some]
  from ph have t: "t < length (tasks s)" and p: "phase (tasks s ! t) = AwaitJson"
    by (simp_all add: in_phase_def)
  let ?s = "sendMessage_data E s t data"
  show ?thesis
  proof (rule page_okI)
    fix t' assume "t' < length (tasks ?s)"
    then have t': "t' < length (tasks s)" by (simp add: f)
    show "task_ok ?s (tasks ?s ! t')"
    proof (cases "t' = t")
      case True
      with page_ok_task [OF ok t] t show ?thesis
        by (auto simp: f task_ok_cases timer_ids_def)
    next
      case False
      with page_ok_task [OF ok t'] t' show ?thesis
        by (auto simp: f task_ok_cases timer_ids_def)
    qed
  next
    fix k assume "k \<in> set (timer_ids ?s)"
    then have "k \<in> set (timer_ids s) \<or> k = next_timer s"
      by (auto simp: f timer_ids_def)
    with page_ok_timer [OF ok] show "k < next_timer ?s"
      by (auto simp: f less_Suc_eq)
  next
    fix k assume k: "k \<in> set (timer_ids ?s)"
    show "\<exists>t'<length (tasks ?s). owns (tasks ?s ! t') k"
    proof (cases "k = next_timer s")
      case True
      with t show ?thesis
        by (intro exI [of _ t]) (simp add: f owns_phase_cases)
    next
      case False
      with k have k': "k \<in> set (timer_ids s)" "k \<noteq> typing_int (tasks s ! t)"
        by (auto simp: f timer_ids_def)
      from page_ok_owner [OF ok k'(1)] obtain t' where t': "t' < length (tasks s)" "owns (tasks s ! t') k"
        by blast
      with k'(2) p have "t' \<noteq> t"
        by (auto simp: owns_phase_cases)
      with t' show ?thesis
        by (intro exI [of _ t']) (simp add: f)
    qed
  next
    fix n assume "n \<in> set (chat_kids ?s)"
    then have "n \<in> set (chat_kids s) \<or> n = next_node s"
      by (auto simp: f)
    with page_ok_chat [OF ok] show "n < next_node ?s"
      by (auto simp: f less_Suc_eq)
  qed
qed

lemma page_ok_revealed:
  assumes ok: "page_ok s" and t: "t < length (tasks s)"
    and p: "phase (tasks s ! t) = AwaitReveal b d k" and k: "k \<notin> set (timer_ids s)"
  shows "page_ok (sendMessage_revealed E s t botEl data)"
proof (cases "note_text E data")
  case (Inl m)
  note f = sendMessage_revealed_throw_fields [OF Inl]
  let ?s = "sendMessage_revealed E s t botEl data"
  show ?thesis
  proof (rule page_ok_finish [OF ok t])
    show "tasks ?s = (tasks s)[t := (tasks s ! t)\<lparr>phase := Finished\<rparr>]"
      by (simp add: f)
    show "set (timer_ids ?s) \<subseteq> set (timer_ids s) - {typing_int (tasks s ! t)}"
      by (auto simp: f timer_ids_def)
    show "\<not> owns (tasks s ! t) k'" if "k' \<in> set (timer_ids ?s)" for k'
      using that p k by (auto simp: f timer_ids_def owns_phase_cases)
    show "next_timer ?s = next_timer s"
      by (simp add: f)
    show "next_node s \<le> next_node ?s"
      by (simp add: f)
    show "n \<in> set (chat_kids s) \<or> n < next_node ?s" if "n \<in> set (chat_kids ?s)" for n
      using that by (auto simp: f)
  qed
next
  case (Inr str)
  note f = sendMessage_revealed_ok_fields [OF Inr]
  let ?s = "sendMessage_revealed E s t botEl data"
  show ?thesis
  proof (rule page_ok_finish [OF ok t])
    show "tasks ?s = (tasks s)[t := (tasks s ! t)\<lparr>phase := Finished\<rparr>]"
      by (simp add: f)
    show "set (timer_ids ?s) \<subseteq> set (timer_ids s) - {typing_int (tasks s ! t)}"
      using page_ok_task [OF ok t] p by (auto simp: f timer_ids_def task_ok_cases)
    show "\<not> owns (tasks s ! t) k'" if "k' \<in> set (timer_ids ?s)" for k'
      using that p k by (auto simp: f timer_ids_def owns_phase_cases)
    show "next_timer ?s = next_timer s"
      by (simp add: f)
    show "next_node s \<le> next_node ?s"
      by (simp add: f)
    show "n \<in> set (chat_kids s) \<or> n < next_node ?s" if "n \<in> set (chat_kids ?s)" for n
      using that by (auto simp: f)
  qed
qed

lemma timer_ids_dots_tick: "timer_ids (dots_tick s k dots i) = timer_ids s"
  by (simp add: dots_tick_fields timer_ids_def map_fst_set_timer)

lemma fire_interval_frame:
  "tasks (fst (fire_interval E s k)) = tasks s"
  "next_node (fst (fire_interval E s k)) = next_node s"
  "next_timer (fst (fire_interval E s k)) = next_timer s"
  "chat_kids (fst (fire_interval E s k)) = chat_kids s"
  "btn_disabled (fst (fire_interval E s k)) = btn_disabled s"
  "input_value (fst (fire_interval E s k)) = input_value s"
  "timer_ids (fst (fire_interval E s k)) =
     (if snd (fire_interval E s k) then filter (\<lambda>k'. k' \<noteq> k) (timer_ids s) else timer_ids s)"
  "effects (fst (fire_interval E s k)) =
     (if snd (fire_interval E s k) then effects s @ [ClearInterval k] else effects s)"
  by (simp_all add: fire_interval_def dots_tick_fields reveal_tick_fields timer_ids_dots_tick
      split: option.splits timer.splits prod.splits)

lemma page_ok_fire: "page_ok s \<Longrightarrow> page_ok (fst (fire_interval E s k))"
  by (rule page_ok_shrink [of s]) (auto simp: fire_interval_frame)

lemma page_ok_resume:
  assumes ok: "page_ok s" and k: "k \<notin> set (timer_ids s)"
  shows "page_ok (resume_reveal E s k)"
proof (cases "find_task (awaits k) (tasks s) 0")
  case None
  with ok show ?thesis by (simp add: resume_reveal_def)
next
  case (Some t)
  from find_task_Some [OF Some] have t: "t < length (tasks s)" and a: "awaits k (tasks s ! t)"
    by simp_all
  from a obtain b d where p: "phase (tasks s ! t) = AwaitReveal b d k"
    by (auto simp: awaits_def split: phase.splits)
  show ?thesis
    using page_ok_revealed [OF ok t p k] by (simp add: resume_reveal_def Some p)
qed

lemma page_ok_step:
  assumes ok: "page_ok s"
  shows "page_ok (step E s ev)"
proof (cases ev)
  case (Edit v)
  with page_ok_Edit [OF ok] show ?thesis by (simp add: step_def)
next
  case Click
  with ok page_ok_sendMessage [OF ok] show ?thesis by (simp add: step_def)
next
  case (Keydown key)
  with ok page_ok_sendMessage [OF ok] show ?thesis by (simp add: step_def)
next
  case (Tick k)
  obtain s1 r where fi: "fire_interval E s k = (s1, r)"
    by (cases "fire_interval E s k")
  from page_ok_fire [OF ok, of E k] fi have ok1: "page_ok s1" by simp
  show ?thesis
  proof (cases r)
    case True
    with fire_interval_frame(7) [of E s k] fi have "k \<notin> set (timer_ids s1)"
      by simp
    from page_ok_resume [OF ok1 this] True Tick fi show ?thesis
      by (simp add: step_def)
  next
    case False
    with ok1 Tick fi show ?thesis
      by (simp add: step_def)
  qed
next
  case (FetchResolve t status)
  with ok page_ok_FetchResolve [OF ok] show ?thesis by (simp add: step_def)
next
  case (FetchReject t m)
  show ?thesis
  proof (cases "in_phase s t AwaitFetch")
    case True
    then have "page_ok (sendMessage_catch s t m)"
      by (intro page_ok_catch [OF ok]) (auto simp: in_phase_def owns_phase_cases)
    with True FetchReject show ?thesis by (simp add: step_def)
  next
    case False
    with ok FetchReject show ?thesis by (simp add: step_def)
  qed
next
  case (JsonResolve t data)
  with ok page_ok_data [OF ok] show ?thesis by (simp add: step_def)
next
  case (JsonReject t m)
  show ?thesis
  proof (cases "in_phase s t AwaitJson")
    case True
    then have "page_ok (sendMessage_catch s t m)"
      by (intro page_ok_catch [OF ok]) (auto simp: in_phase_def owns_phase_cases)
    with True JsonReject show ?thesis by (simp add: step_def)
  next
    case False
    with ok JsonReject show ?thesis by (simp add: step_def)
  qed
qed

lemma page_ok_run: "page_ok s \<Longrightarrow> page_ok (run E s evs)"
  by (induction evs arbitrary: s) (simp_all add: page_ok_step)

lemma loaded_page_ok: "loaded s \<Longrightarrow> page_ok s"
  by (simp add: loaded_def page_ok_def timer_ids_def list_all_iff)


section \<open>The reveal, tick by tick\<close>








section \<open>The order of the operations of a turn\<close>

lemma stopped_before:
  assumes new: "new = pre @ [ClearInterval c, RemoveNode r] @ rest"
    and pre: "\<And>b. AppendChat b \<notin> set pre"
    and i: "i < length new" "new ! i = AppendChat b"
  shows "ClearInterval c \<in> set (take i new) \<and> RemoveNode r \<in> set (take i new)"
proof -
  have "\<not> i < length pre"
  proof
    assume "i < length pre"
    then have "new ! i \<in> set pre"
      by (simp add: new nth_append)
    with i(2) pre show False by simp
  qed
  moreover have "i \<noteq> length pre" "i \<noteq> Suc (length pre)"
    using i(2) by (auto simp: new nth_append)
  ultimately have "Suc (Suc (length pre)) \<le> i" by arith
  then obtain d where "i = Suc (Suc (length pre)) + d"
    using le_Suc_ex by blast
  then have "take i new = pre @ [ClearInterval c, RemoveNode r] @ take d rest"
    by (simp add: new)
  then show ?thesis by simp
qed

lemma catch_stops_typing:
  assumes ok: "page_ok s" and t: "t < length (tasks s)" and p: "phase (tasks s ! t) \<noteq> Finished"
  shows "stops_typing s (sendMessage_catch s t m)"
proof -
  from page_ok_task [OF ok t] have "typing_el (tasks s ! t) < next_node s"
    by (simp add: task_ok_cases)
  moreover have "\<exists>q. q \<noteq> phase (tasks s ! t) \<and>
      tasks (sendMessage_catch s t m) = (tasks s)[t := (tasks s ! t)\<lparr>phase := q\<rparr>]"
    using p by (intro exI [of _ Finished]) (simp add: sendMessage_catch_fields)
  ultimately show ?thesis
    unfolding stops_typing_def
    by (intro exI [of _ t] exI [of _ "[]"] exI [of _ "[AppendChat (next_node s)]"])
      (auto simp: t p sendMessage_catch_fields(1,2,6) timer_ids_def)
qed

lemma data_stops_typing:
  assumes ok: "page_ok s" and t: "t < length (tasks s)" and p: "phase (tasks s ! t) = AwaitJson"
  shows "stops_typing s (sendMessage_data E s t data)"
proof -
  from page_ok_task [OF ok t]
  have lt: "typing_el (tasks s ! t) < next_node s" "typing_int (tasks s ! t) < next_timer s"
    by (simp_all add: task_ok_cases)
  show ?thesis
  proof (cases "replyText data")
    case None
    note f = sendMessage_data_throw_fields [OF None]
    have "\<exists>q. q \<noteq> phase (tasks s ! t) \<and>
        tasks (sendMessage_data E s t data) = (tasks s)[t := (tasks s ! t)\<lparr>phase := q\<rparr>]"
      by (intro exI [of _ Finished]) (simp add: p f)
    then show ?thesis
      unfolding stops_typing_def
      by (intro exI [of _ t] exI [of _ "[]"]
          exI [of _ "[AppendChat (next_node s), ClearInterval (typing_int (tasks s ! t)),
                      RemoveNode (typing_el (tasks s ! t)), AppendChat (Suc (next_node s))]"])
        (use lt in \<open>auto simp: t p f(1,2,6) timer_ids_def\<close>)
  next
    case (Some reply)
    note f = sendMessage_data_reply_fields [OF Some]
    have "\<exists>q. q \<noteq> phase (tasks s ! t) \<and>
        tasks (sendMessage_data E s t data) = (tasks s)[t := (tasks s ! t)\<lparr>phase := q\<rparr>]"
      by (intro exI [of _ "AwaitReveal (next_node s) data (next_timer s)"]) (simp add: p f)
    then show ?thesis
      unfolding stops_typing_def
      by (intro exI [of _ t] exI [of _ "[]"]
          exI [of _ "[AppendChat (next_node s), SetInterval (next_timer s)]"])
        (use lt in \<open>auto simp: t p f(1,2,6) timer_ids_def\<close>)
  qed
qed

lemma no_bot_message_refl: "no_bot_message s s"
  by (simp add: no_bot_message_def)

lemma sendMessage_no_bot_message: "no_bot_message s (sendMessage s)"
proof (cases "trim (input_value s) = []")
  case True
  then show ?thesis by (simp add: sendMessage_def no_bot_message_refl)
next
  case False
  note f = sendMessage_fields [OF False]
  show ?thesis
    unfolding no_bot_message_def
    by (intro exI [of _ "[AppendChat (next_node s), AppendChat (Suc (next_node s)),
          SetInterval (next_timer s), Fetch API_URL (trim (input_value s))]"])
      (auto simp: f lit_eq_iff)
qed

lemma resume_shape:
  assumes ok: "page_ok s1" and e: "effects s1 = effects s @ [ClearInterval k]"
    and tk: "tasks s1 = tasks s"
  shows "no_bot_message s (resume_reveal E s1 k) \<or> stops_typing s (resume_reveal E s1 k)"
proof (cases "find_task (awaits k) (tasks s1) 0")
  case None
  then show ?thesis
    by (simp add: resume_reveal_def no_bot_message_def e)
next
  case (Some t)
  from find_task_Some [OF Some] have t: "t < length (tasks s1)" and a: "awaits k (tasks s1 ! t)"
    by simp_all
  from a obtain b d where p: "phase (tasks s1 ! t) = AwaitReveal b d k"
    by (auto simp: awaits_def split: phase.splits)
  have r: "resume_reveal E s1 k = sendMessage_revealed E s1 t b d"
    by (simp add: resume_reveal_def Some p)
  show ?thesis
  proof (cases "note_text E d")
    case (Inr str)
    note f = sendMessage_revealed_ok_fields [OF Inr]
    show ?thesis
      by (simp add: r no_bot_message_def f e)
  next
    case (Inl m)
    note f = sendMessage_revealed_throw_fields [OF Inl]
    from page_ok_task [OF ok t] have "typing_el (tasks s1 ! t) < next_node s1"
      by (simp add: task_ok_cases)
    moreover have "\<exists>q. q \<noteq> phase (tasks s1 ! t) \<and>
        tasks (sendMessage_revealed E s1 t b d) = (tasks s1)[t := (tasks s1 ! t)\<lparr>phase := q\<rparr>]"
      by (intro exI [of _ Finished]) (simp add: p f)
    ultimately have "stops_typing s (sendMessage_revealed E s1 t b d)"
      unfolding stops_typing_def using t
      by (intro exI [of _ t] exI [of _ "[ClearInterval k]"]
          exI [of _ "[AppendChat (Suc (next_node s1))]"])
        (auto simp: p f(1,2,6) e tk [symmetric] timer_ids_def)
    then show ?thesis by (simp add: r)
  qed
qed

lemma step_shape:
  assumes ok: "page_ok s"
  shows "no_bot_message s (step E s ev) \<or> stops_typing s (step E s ev)"
proof (cases ev)
  case (Edit v)
  then show ?thesis by (simp add: step_def no_bot_message_def)
next
  case Click
  with sendMessage_no_bot_message [of s] show ?thesis
    by (simp add: step_def no_bot_message_refl)
next
  case (Keydown key)
  with sendMessage_no_bot_message [of s] show ?thesis
    by (simp add: step_def no_bot_message_refl)
next
  case (Tick k)
  obtain s1 r where fi: "fire_interval E s k = (s1, r)"
    by (cases "fire_interval E s k")
  from page_ok_fire [OF ok, of E k] fi have ok1: "page_ok s1" by simp
  show ?thesis
  proof (cases r)
    case True
    with fire_interval_frame(1,8) [of E s k] fi
    have "tasks s1 = tasks s" "effects s1 = effects s @ [ClearInterval k]"
      by simp_all
    from resume_shape [OF ok1 this(2) this(1)] True Tick fi show ?thesis
      by (simp add: step_def)
  next
    case False
    with fire_interval_frame(8) [of E s k] fi have "effects s1 = effects s" by simp
    with False Tick fi show ?thesis
      by (simp add: step_def no_bot_message_def)
  qed
next
  case (FetchResolve t status)
  then show ?thesis by (simp add: step_def no_bot_message_def)
next
  case (FetchReject t m)
  with catch_stops_typing [OF ok, of t m] show ?thesis
    by (simp add: step_def in_phase_def no_bot_message_refl)
next
  case (JsonResolve t data)
  with data_stops_typing [OF ok, of t E data] show ?thesis
    by (simp add: step_def in_phase_def no_bot_message_refl)
next
  case (JsonReject t m)
  with catch_stops_typing [OF ok, of t m] show ?thesis
    by (simp add: step_def in_phase_def no_bot_message_refl)
qed

section \<open>One call waits for a reveal\<close>

lemma single_waiter_same: "single_waiter s \<Longrightarrow> tasks s' = tasks s \<Longrightarrow> single_waiter s'"
  by (simp add: single_waiter_def)

lemma single_waiter_update:
  assumes sw: "single_waiter s"
    and tasks': "tasks s' = (tasks s)[t := tk]"
    and new: "\<And>k t'. awaits k tk \<Longrightarrow> t' < length (tasks s) \<Longrightarrow> t' \<noteq> t \<Longrightarrow> \<not> awaits k (tasks s ! t')"
  shows "single_waiter s'"
  unfolding single_waiter_def
proof (intro allI impI)
  fix a b k
  assume a: "a < length (tasks s')" and b: "b < length (tasks s')"
    and w: "awaits k (tasks s' ! a) \<and> awaits k (tasks s' ! b)"
  from a b have a': "a < length (tasks s)" and b': "b < length (tasks s)"
    by (simp_all add: tasks')
  show "a = b"
  proof (cases "a = t")
    case True
    show ?thesis
    proof (cases "b = t")
      case True
      with \<open>a = t\<close> show ?thesis by simp
    next
      case False
      with w True a' b' new [of k b] show ?thesis
        by (simp add: tasks')
    qed
  next
    case False
    show ?thesis
    proof (cases "b = t")
      case True
      with w False a' b' new [of k a] show ?thesis
        by (simp add: tasks')
    next
      case bf: False
      with w False have "awaits k (tasks s ! a)" "awaits k (tasks s ! b)"
        by (simp_all add: tasks')
      with a' b' sw show ?thesis
        unfolding single_waiter_def by blast
    qed
  qed
qed

lemma single_waiter_quiet:
  assumes sw: "single_waiter s"
    and tasks': "tasks s' = (tasks s)[t := tk]"
    and quiet: "\<And>k. \<not> awaits k tk"
  shows "single_waiter s'"
  using sw tasks' by (rule single_waiter_update) (simp add: quiet)

lemma single_waiter_sendMessage: "single_waiter s \<Longrightarrow> single_waiter (sendMessage s)"
proof (cases "trim (input_value s) = []")
  case True
  assume "single_waiter s"
  with True show ?thesis by (simp add: sendMessage_def)
next
  case False
  assume sw: "single_waiter s"
  note f = sendMessage_fields [OF False]
  show ?thesis
    unfolding single_waiter_def
  proof (intro allI impI)
    fix a b k
    assume a: "a < length (tasks (sendMessage s))" and b: "b < length (tasks (sendMessage s))"
      and w: "awaits k (tasks (sendMessage s) ! a) \<and> awaits k (tasks (sendMessage s) ! b)"
    have n: "\<not> awaits k (tasks (sendMessage s) ! length (tasks s))"
      by (simp add: f awaits_def)
    from a b w n have "a < length (tasks s)" "b < length (tasks s)"
      by (auto simp: f less_Suc_eq)
    with w have "awaits k (tasks s ! a)" "awaits k (tasks s ! b)"
      by (simp_all add: f nth_append)
    with sw \<open>a < length (tasks s)\<close> \<open>b < length (tasks s)\<close> show "a = b"
      unfolding single_waiter_def by blast
  qed
qed

lemma single_waiter_revealed:
  "single_waiter s \<Longrightarrow> single_waiter (sendMessage_revealed E s t botEl data)"
proof (cases "note_text E data")
  case (Inl m)
  assume "single_waiter s"
  then show ?thesis
    by (rule single_waiter_quiet [where t = t and tk = "(tasks s ! t)\<lparr>phase := Finished\<rparr>"])
      (simp_all add: sendMessage_revealed_throw_fields [OF Inl] awaits_def)
next
  case (Inr str)
  assume "single_waiter s"
  then show ?thesis
    by (rule single_waiter_quiet [where t = t and tk = "(tasks s ! t)\<lparr>phase := Finished\<rparr>"])
      (simp_all add: sendMessage_revealed_ok_fields [OF Inr] awaits_def)
qed

lemma single_waiter_catch: "single_waiter s \<Longrightarrow> single_waiter (sendMessage_catch s t m)"
  by (rule single_waiter_quiet [where t = t and tk = "(tasks s ! t)\<lparr>phase := Finished\<rparr>"])
    (simp_all add: sendMessage_catch_fields awaits_def)

lemma single_waiter_data:
  assumes ok: "page_ok s" and sw: "single_waiter s"
  shows "single_waiter (sendMessage_data E s t data)"
proof (cases "replyText data")
  case None
  from sw show ?thesis
    by (rule single_waiter_quiet [where t = t and tk = "(tasks s ! t)\<lparr>phase := Finished\<rparr>"])
      (simp_all add: sendMessage_data_throw_fields [OF None] awaits_def)
next
  case (Some reply)
  have fresh: "\<not> awaits (next_timer s) (tasks s ! t')" if "t' < length (tasks s)" for t'
    using page_ok_task [OF ok that] by (auto simp: task_ok_cases awaits_def split: phase.splits)
  show ?thesis
  proof (rule single_waiter_update [OF sw, where t = t
        and tk = "(tasks s ! t)\<lparr>phase := AwaitReveal (next_node s) data (next_timer s)\<rparr>"])
    show "tasks (sendMessage_data E s t data) =
        (tasks s)[t := (tasks s ! t)\<lparr>phase := AwaitReveal (next_node s) data (next_timer s)\<rparr>]"
      by (simp add: sendMessage_data_reply_fields [OF Some])
  next
    fix k t'
    assume "awaits k ((tasks s ! t)\<lparr>phase := AwaitReveal (next_node s) data (next_timer s)\<rparr>)"
      and t': "t' < length (tasks s)"
    then have "k = next_timer s" by (simp add: awaits_def)
    with fresh [OF t'] show "\<not> awaits k (tasks s ! t')" by simp
  qed
qed

lemma single_waiter_resume: "single_waiter s \<Longrightarrow> single_waiter (resume_reveal E s k)"
  by (simp add: resume_reveal_def single_waiter_revealed split: option.splits phase.splits)

lemma single_waiter_step:
  assumes ok: "page_ok s" and sw: "single_waiter s"
  shows "single_waiter (step E s ev)"
proof (cases ev)
  case (Edit v)
  with sw show ?thesis by (simp add: step_def single_waiter_same [OF sw])
next
  case Click
  with sw show ?thesis by (simp add: step_def single_waiter_sendMessage)
next
  case (Keydown key)
  with sw show ?thesis by (simp add: step_def single_waiter_sendMessage)
next
  case (Tick k)
  obtain s1 r where fi: "fire_interval E s k = (s1, r)"
    by (cases "fire_interval E s k")
  with fire_interval_frame(1) [of E s k] have "single_waiter s1"
    by (intro single_waiter_same [OF sw]) simp
  with Tick fi show ?thesis
    by (simp add: step_def single_waiter_resume)
next
  case (FetchResolve t status)
  have "single_waiter (s\<lparr>tasks := (tasks s)[t := (tasks s ! t)\<lparr>phase := AwaitJson\<rparr>]\<rparr>)"
    using sw
    by (rule single_waiter_quiet [where t = t and tk = "(tasks s ! t)\<lparr>phase := AwaitJson\<rparr>"])
      (simp_all add: awaits_def)
  with sw FetchResolve show ?thesis by (simp add: step_def)
next
  case (FetchReject t m)
  with sw show ?thesis by (simp add: step_def single_waiter_catch)
next
  case (JsonResolve t data)
  with sw ok show ?thesis by (simp add: step_def single_waiter_data)
next
  case (JsonReject t m)
  with sw show ?thesis by (simp add: step_def single_waiter_catch)
qed

lemma reachable_ok:
  "page_ok s \<Longrightarrow> single_waiter s \<Longrightarrow> page_ok (run E s evs) \<and> single_waiter (run E s evs)"
  by (induction evs arbitrary: s) (simp_all add: page_ok_step single_waiter_step)

lemma loaded_single_waiter: "loaded s \<Longrightarrow> single_waiter s"
  by (simp add: loaded_def single_waiter_def)

lemma find_task_finds:
  "t < length tks \<Longrightarrow> P (tks ! t) \<Longrightarrow> \<exists>t'. find_task P tks n = Some t'"
proof (induction tks arbitrary: t n)
  case Nil
  then show ?case by simp
next
  case (Cons tk tks)
  show ?case
  proof (cases "P tk")
    case True
    then show ?thesis by simp
  next
    case False
    with Cons.prems obtain t0 where "t = Suc t0"
      by (cases t) auto
    with Cons.prems have "t0 < length tks" "P (tks ! t0)" by simp_all
    from Cons.IH [OF this] False show ?thesis by simp
  qed
qed

lemma find_task_unique:
  assumes sw: "single_waiter s" and t: "t < length (tasks s)" and a: "awaits k (tasks s ! t)"
  shows "find_task (awaits k) (tasks s) 0 = Some t"
proof -
  from find_task_finds [of t "tasks s" "awaits k" 0, OF t a] obtain t' where f: "find_task (awaits k) (tasks s) 0 = Some t'"
    by blast
  from find_task_Some [OF f] have "t' < length (tasks s)" "awaits k (tasks s ! t')"
    by simp_all
  with sw t a have "t' = t"
    unfolding single_waiter_def by blast
  with f show ?thesis by simp
qed

lemma timer_ids_filter:
  "map fst (filter (\<lambda>e. fst e \<noteq> k) ts) = filter (\<lambda>k'. k' \<noteq> k) (map fst ts)"
  by (induction ts) auto

lemma failure_path_stops_typing:
  assumes ok: "page_ok s" and t: "t < length (tasks s)"
  shows "effects (sendMessage_catch s t m) =
           effects s @ [ClearInterval (typing_int (tasks s ! t)), RemoveNode (typing_el (tasks s ! t)),
                        AppendChat (next_node s)] \<and>
         className (nodes (sendMessage_catch s t m) (next_node s)) = lit ''message bot'' \<and>
         innerText (nodes (sendMessage_catch s t m) (next_node s)) = error_marker @ m \<and>
         timer_ids (sendMessage_catch s t m) =
           filter (\<lambda>k. k \<noteq> typing_int (tasks s ! t)) (timer_ids s) \<and>
         typing_el (tasks s ! t) \<notin> set (chat_kids (sendMessage_catch s t m)) \<and>
         in_phase (sendMessage_catch s t m) t Finished"
proof -
  from page_ok_task [OF ok t] have "typing_el (tasks s ! t) < next_node s"
    by (simp add: task_ok_cases)
  with t show ?thesis
    by (simp add: sendMessage_catch_fields timer_ids_def timer_ids_filter in_phase_def)
qed

lemma success_path_stops_typing:
  assumes ok: "page_ok s" and t: "t < length (tasks s)"
  shows "(\<exists>rest. effects (sendMessage_data E s t data) =
           effects s @ [ClearInterval (typing_int (tasks s ! t)), RemoveNode (typing_el (tasks s ! t)),
                        AppendChat (next_node s)] @ rest) \<and>
         className (nodes (sendMessage_data E s t data) (next_node s)) = lit ''message bot'' \<and>
         typing_int (tasks s ! t) \<notin> set (timer_ids (sendMessage_data E s t data)) \<and>
         typing_el (tasks s ! t) \<notin> set (chat_kids (sendMessage_data E s t data)) \<and>
         (\<forall>reply. replyText data = Some reply \<longrightarrow>
            effects (sendMessage_data E s t data) =
              effects s @ [ClearInterval (typing_int (tasks s ! t)), RemoveNode (typing_el (tasks s ! t)),
                           AppendChat (next_node s), SetInterval (next_timer s)] \<and>
            timer_ids (sendMessage_data E s t data) =
              filter (\<lambda>k. k \<noteq> typing_int (tasks s ! t)) (timer_ids s) @ [next_timer s] \<and>
            in_phase (sendMessage_data E s t data) t (AwaitReveal (next_node s) data (next_timer s)))"
proof -
  from page_ok_task [OF ok t]
  have lt: "typing_el (tasks s ! t) < next_node s" "typing_int (tasks s ! t) < next_timer s"
    by (simp_all add: task_ok_cases)
  show ?thesis
  proof (cases "replyText data")
    case None
    with lt t show ?thesis
      by (simp add: sendMessage_data_throw_fields [OF None] timer_ids_def timer_ids_filter)
  next
    case (Some reply)
    with lt t show ?thesis
      by (simp add: sendMessage_data_reply_fields [OF Some] timer_ids_def timer_ids_filter in_phase_def)
  qed
qed

lemma reveal_completion:
  assumes ok: "page_ok s" and sw: "single_waiter s"
    and p: "in_phase s t (AwaitReveal b d k)" and r: "snd (fire_interval E s k)"
  shows "in_phase (step E s (Tick k)) t Finished \<and>
         set (timer_ids (step E s (Tick k))) \<subseteq> set (timer_ids s) - {k, typing_int (tasks s ! t)} \<and>
         (case note_text E d of
            Inr str \<Rightarrow> effects (step E s (Tick k)) = effects s @ [ClearInterval k]
          | Inl m \<Rightarrow>
              effects (step E s (Tick k)) =
                effects s @ [ClearInterval k, ClearInterval (typing_int (tasks s ! t)),
                             RemoveNode (typing_el (tasks s ! t)), AppendChat (Suc (next_node s))] \<and>
              className (nodes (step E s (Tick k)) (Suc (next_node s))) = lit ''message bot'' \<and>
              innerText (nodes (step E s (Tick k)) (Suc (next_node s))) = error_marker @ m)"
proof -
  obtain s1 where fi: "fire_interval E s k = (s1, True)"
    using r by (cases "fire_interval E s k") auto
  from fire_interval_frame(1,2,7,8) [of E s k] fi
  have tk: "tasks s1 = tasks s" and nn: "next_node s1 = next_node s"
    and ids: "timer_ids s1 = filter (\<lambda>k'. k' \<noteq> k) (timer_ids s)"
    and ef: "effects s1 = effects s @ [ClearInterval k]"
    by simp_all
  from p have t: "t < length (tasks s)" and ph: "phase (tasks s ! t) = AwaitReveal b d k"
    by (simp_all add: in_phase_def)
  from page_ok_task [OF ok t] ph have ti: "typing_int (tasks s ! t) \<notin> set (timer_ids s)"
    by (simp add: task_ok_cases)
  have "awaits k (tasks s ! t)"
    by (simp add: awaits_def ph)
  with sw t have f: "find_task (awaits k) (tasks s) 0 = Some t"
    by (rule find_task_unique)
  have st: "step E s (Tick k) = sendMessage_revealed E s1 t b d"
    by (simp add: step_def fi resume_reveal_def f tk ph)
  have "tasks (sendMessage_revealed E s1 t b d) = (tasks s)[t := (tasks s ! t)\<lparr>phase := Finished\<rparr>] \<and>
        set (timer_ids (sendMessage_revealed E s1 t b d)) \<subseteq> set (timer_ids s1)"
  proof (cases "note_text E d")
    case (Inl m)
    show ?thesis
      by (simp add: sendMessage_revealed_throw_fields [OF Inl] tk timer_ids_def timer_ids_filter)
  next
    case (Inr str)
    show ?thesis
      by (simp add: sendMessage_revealed_ok_fields [OF Inr] tk timer_ids_def timer_ids_filter)
  qed
  with t ti have "in_phase (step E s (Tick k)) t Finished \<and>
         set (timer_ids (step E s (Tick k))) \<subseteq> set (timer_ids s) - {k, typing_int (tasks s ! t)}"
    by (auto simp: st ids in_phase_def)
  moreover have "case note_text E d of
            Inr str \<Rightarrow> effects (step E s (Tick k)) = effects s @ [ClearInterval k]
          | Inl m \<Rightarrow>
              effects (step E s (Tick k)) =
                effects s @ [ClearInterval k, ClearInterval (typing_int (tasks s ! t)),
                             RemoveNode (typing_el (tasks s ! t)), AppendChat (Suc (next_node s))] \<and>
              className (nodes (step E s (Tick k)) (Suc (next_node s))) = lit ''message bot'' \<and>
              innerText (nodes (step E s (Tick k)) (Suc (next_node s))) = error_marker @ m"
  proof (cases "note_text E d")
    case (Inl m)
    from sendMessage_revealed_throw_fields(6,9,10) [OF Inl, of s1 t b] show ?thesis
      by (simp add: Inl st ef tk nn)
  next
    case (Inr str)
    from sendMessage_revealed_ok_fields(6) [OF Inr, of s1 t b] show ?thesis
      by (simp add: Inr st ef)
  qed
  ultimately show ?thesis by blast
qed

section \<open>The chat box grows at its end\<close>

lemma removeAll_as_filter: "removeAll r xs = filter (\<lambda>n. n \<notin> {r}) xs"
  by (induction xs) auto

lemma log_growsI:
  assumes "next_node s \<le> next_node s'"
    and "\<And>t. t < length (tasks s') \<Longrightarrow>
           t < length (tasks s) \<and> typing_el (tasks s' ! t) = typing_el (tasks s ! t)
           \<or> next_node s \<le> typing_el (tasks s' ! t)"
    and "chat_kids s' = filter (\<lambda>n. n \<notin> R) (chat_kids s) @ new"
    and "\<And>r. r \<in> R \<Longrightarrow> \<exists>t < length (tasks s). r = typing_el (tasks s ! t)"
    and "\<And>n. n \<in> set new \<Longrightarrow> next_node s \<le> n"
  shows "log_grows s s'"
  unfolding log_grows_def using assms by blast

lemma log_grows_same:
  "next_node s' = next_node s \<Longrightarrow> map typing_el (tasks s') = map typing_el (tasks s) \<Longrightarrow>
   chat_kids s' = chat_kids s \<Longrightarrow> log_grows s s'"
proof (rule log_growsI [where R = "{}" and new = "[]"])
  assume m: "map typing_el (tasks s') = map typing_el (tasks s)"
  fix t assume t: "t < length (tasks s')"
  from m have "length (tasks s') = length (tasks s)"
    by (metis length_map)
  moreover from m t this have "typing_el (tasks s' ! t) = typing_el (tasks s ! t)"
    by (metis nth_map)
  ultimately show "t < length (tasks s) \<and> typing_el (tasks s' ! t) = typing_el (tasks s ! t)
      \<or> next_node s \<le> typing_el (tasks s' ! t)"
    using t by simp
qed simp_all

lemma map_typing_el_update:
  "map typing_el (ts[t := (ts ! t)\<lparr>phase := p\<rparr>]) = map typing_el ts"
proof (rule nth_equalityI)
  fix i assume "i < length (map typing_el (ts[t := (ts ! t)\<lparr>phase := p\<rparr>]))"
  then have i: "i < length ts" by simp
  then show "map typing_el (ts[t := (ts ! t)\<lparr>phase := p\<rparr>]) ! i = map typing_el ts ! i"
    by (cases "i = t") simp_all
qed simp

lemma log_grows_sendMessage: "log_grows s (sendMessage s)"
proof (cases "trim (input_value s) = []")
  case True
  then show ?thesis by (simp add: sendMessage_def log_grows_same)
next
  case False
  note f = sendMessage_fields [OF False]
  show ?thesis
    by (rule log_growsI [where R = "{}" and new = "[next_node s, Suc (next_node s)]"])
      (auto simp: f nth_append)
qed

lemma log_grows_finish:
  assumes t: "t < length (tasks s)"
    and "tasks s' = (tasks s)[t := (tasks s ! t)\<lparr>phase := p\<rparr>]"
    and "next_node s \<le> next_node s'"
    and "chat_kids s' = removeAll (typing_el (tasks s ! t)) (chat_kids s) @ new"
    and "\<And>n. n \<in> set new \<Longrightarrow> next_node s \<le> n"
  shows "log_grows s s'"
proof (rule log_growsI [where R = "{typing_el (tasks s ! t)}" and new = new])
  fix t' assume "t' < length (tasks s')"
  then show "t' < length (tasks s) \<and> typing_el (tasks s' ! t') = typing_el (tasks s ! t')
      \<or> next_node s \<le> typing_el (tasks s' ! t')"
    using assms(2) by (cases "t' = t") simp_all
next
  show "chat_kids s' = filter (\<lambda>n. n \<notin> {typing_el (tasks s ! t)}) (chat_kids s) @ new"
    using assms(4) by (simp add: removeAll_as_filter)
next
  fix r assume "r \<in> {typing_el (tasks s ! t)}"
  with t show "\<exists>t < length (tasks s). r = typing_el (tasks s ! t)" by auto
qed (use assms in auto)

lemma log_grows_catch: "t < length (tasks s) \<Longrightarrow> log_grows s (sendMessage_catch s t m)"
  by (rule log_grows_finish [where new = "[next_node s]"]) (simp_all add: sendMessage_catch_fields)

lemma log_grows_data: "t < length (tasks s) \<Longrightarrow> log_grows s (sendMessage_data E s t data)"
proof (cases "replyText data")
  case None
  assume t: "t < length (tasks s)"
  note f = sendMessage_data_throw_fields [OF None]
  show ?thesis
    by (rule log_grows_finish [OF t,
          where new = "removeAll (typing_el (tasks s ! t)) [next_node s] @ [Suc (next_node s)]"])
      (auto simp: f split: if_splits)
next
  case (Some reply)
  assume t: "t < length (tasks s)"
  note f = sendMessage_data_reply_fields [OF Some]
  show ?thesis
    by (rule log_grows_finish [OF t, where new = "[next_node s]"]) (auto simp: f)
qed

lemma log_grows_revealed:
  "t < length (tasks s) \<Longrightarrow> log_grows s (sendMessage_revealed E s t botEl data)"
proof (cases "note_text E data")
  case (Inl m)
  assume t: "t < length (tasks s)"
  note f = sendMessage_revealed_throw_fields [OF Inl]
  show ?thesis
    by (rule log_grows_finish [OF t, where new = "[Suc (next_node s)]"]) (auto simp: f)
next
  case (Inr str)
  assume t: "t < length (tasks s)"
  note f = sendMessage_revealed_ok_fields [OF Inr]
  show ?thesis
    by (rule log_growsI [where R = "{}" and new = "[]"])
      (use t in \<open>auto simp: f nth_list_update\<close>)
qed

lemma log_grows_resume: "log_grows s (resume_reveal E s k)"
proof (cases "find_task (awaits k) (tasks s) 0")
  case None
  then show ?thesis by (simp add: resume_reveal_def log_grows_same)
next
  case (Some t)
  from find_task_Some [OF Some] have t: "t < length (tasks s)"
    by simp
  then show ?thesis
    by (auto simp: resume_reveal_def Some log_grows_same log_grows_revealed split: phase.splits)
qed

lemma log_grows_after_fire:
  assumes "log_grows (fst (fire_interval E s k)) s'"
  shows "log_grows s s'"
  using assms by (simp add: log_grows_def fire_interval_frame)

lemma log_grows_step: "log_grows s (step E s ev)"
proof (cases ev)
  case (Edit v)
  then show ?thesis by (simp add: step_def log_grows_same)
next
  case Click
  then show ?thesis by (simp add: step_def log_grows_same log_grows_sendMessage)
next
  case (Keydown key)
  then show ?thesis by (simp add: step_def log_grows_same log_grows_sendMessage)
next
  case (Tick k)
  obtain s1 r where fi: "fire_interval E s k = (s1, r)"
    by (cases "fire_interval E s k")
  have "log_grows s1 (if r then resume_reveal E s1 k else s1)"
    by (simp add: log_grows_resume log_grows_same)
  with log_grows_after_fire [of E s k] fi Tick show ?thesis
    by (simp add: step_def)
next
  case (FetchResolve t status)
  then show ?thesis
    by (simp add: step_def in_phase_def log_grows_same map_typing_el_update)
next
  case (FetchReject t m)
  then show ?thesis by (simp add: step_def in_phase_def log_grows_same log_grows_catch)
next
  case (JsonResolve t data)
  then show ?thesis by (simp add: step_def in_phase_def log_grows_same log_grows_data)
next
  case (JsonReject t m)
  then show ?thesis by (simp add: step_def in_phase_def log_grows_same log_grows_catch)
qed

lemma stays_first_grows:
  assumes sf: "stays_first u A s" and g: "log_grows s s'"
  shows "stays_first u A s'"
proof -
  from sf obtain pre post where u: "u < next_node s"
    and te: "\<And>t. t < length (tasks s) \<Longrightarrow> typing_el (tasks s ! t) \<noteq> u"
    and chat: "chat_kids s = pre @ u # post" "set pre \<subseteq> A" "\<And>n. n \<in> set post \<Longrightarrow> u < n"
    unfolding stays_first_def by blast
  from g obtain R new where nn: "next_node s \<le> next_node s'"
    and te': "\<And>t. t < length (tasks s') \<Longrightarrow>
       t < length (tasks s) \<and> typing_el (tasks s' ! t) = typing_el (tasks s ! t)
       \<or> next_node s \<le> typing_el (tasks s' ! t)"
    and chat': "chat_kids s' = filter (\<lambda>n. n \<notin> R) (chat_kids s) @ new"
    and R: "\<And>r. r \<in> R \<Longrightarrow> \<exists>t < length (tasks s). r = typing_el (tasks s ! t)"
    and new: "\<And>n. n \<in> set new \<Longrightarrow> next_node s \<le> n"
    unfolding log_grows_def by blast
  have "u \<notin> R"
    using R te by blast
  then have c: "chat_kids s' = filter (\<lambda>n. n \<notin> R) pre @ u # (filter (\<lambda>n. n \<notin> R) post @ new)"
    by (simp add: chat' chat(1))
  have "typing_el (tasks s' ! t) \<noteq> u" if "t < length (tasks s')" for t
    using te' [OF that] te [of t] u by auto
  moreover have "u < n" if "n \<in> set (filter (\<lambda>n. n \<notin> R) post @ new)" for n
    using that chat(3) [of n] new [of n] u by auto
  moreover have "set (filter (\<lambda>n. n \<notin> R) pre) \<subseteq> A"
    using chat(2) by auto
  ultimately show ?thesis
    unfolding stays_first_def using u nn c by (intro conjI allI impI exI) auto
qed

lemma stays_first_run: "stays_first u A s \<Longrightarrow> stays_first u A (run E s evs)"
  by (induction evs arbitrary: s) (simp_all add: stays_first_grows [OF _ log_grows_step])

section \<open>The guard on the click path\<close>

text \<open>
  As long as Enter is not pressed in the input field, at most one call of \<open>sendMessage\<close>
  is pending at any time, and the send button is disabled exactly while one is.
\<close>

lemma filter_update_keep:
  "t < length ts \<Longrightarrow> P (ts ! t) \<Longrightarrow> P y \<Longrightarrow> length (filter P (ts[t := y])) = length (filter P ts)"
proof (induction ts arbitrary: t)
  case Nil
  then show ?case by simp
next
  case (Cons a ts)
  then show ?case by (cases t) simp_all
qed

lemma filter_update_drop:
  "t < length ts \<Longrightarrow> P (ts ! t) \<Longrightarrow> \<not> P y \<Longrightarrow> Suc (length (filter P (ts[t := y]))) = length (filter P ts)"
proof (induction ts arbitrary: t)
  case Nil
  then show ?case by simp
next
  case (Cons a ts)
  then show ?case by (cases t) simp_all
qed

lemma guarded_keep:
  assumes g: "guarded s" and t: "t < length (tasks s)" and p: "phase (tasks s ! t) \<noteq> Finished"
    and q: "q \<noteq> Finished"
    and tasks': "tasks s' = (tasks s)[t := (tasks s ! t)\<lparr>phase := q\<rparr>]"
    and btn: "btn_disabled s' = btn_disabled s"
  shows "guarded s'"
proof -
  have "length (pending s') = length (pending s)"
    unfolding pending_def tasks' using t p q by (intro filter_update_keep) simp_all
  then have "pending s' = [] \<longleftrightarrow> pending s = []"
    by (metis length_0_conv)
  with g btn \<open>length (pending s') = length (pending s)\<close> show ?thesis
    unfolding guarded_def by simp
qed

lemma guarded_finish:
  assumes g: "guarded s" and t: "t < length (tasks s)" and p: "phase (tasks s ! t) \<noteq> Finished"
    and tasks': "tasks s' = (tasks s)[t := (tasks s ! t)\<lparr>phase := Finished\<rparr>]"
    and btn: "\<not> btn_disabled s'"
  shows "guarded s'"
proof -
  have "Suc (length (pending s')) = length (pending s)"
    unfolding pending_def tasks' using t p by (intro filter_update_drop) simp_all
  with g have "length (pending s') = 0"
    unfolding guarded_def by arith
  then have "pending s' = []"
    by simp
  with btn show ?thesis
    by (simp add: guarded_def)
qed

lemma guarded_same:
  "guarded s \<Longrightarrow> tasks s' = tasks s \<Longrightarrow> btn_disabled s' = btn_disabled s \<Longrightarrow> guarded s'"
  by (simp add: guarded_def pending_def)

lemma guarded_click: "guarded s \<Longrightarrow> guarded (step E s Click)"
proof (cases "btn_disabled s \<or> trim (input_value s) = []")
  case True
  assume "guarded s"
  with True show ?thesis by (auto simp: step_def sendMessage_def)
next
  case False
  assume g: "guarded s"
  from False have ne: "trim (input_value s) \<noteq> []" and en: "\<not> btn_disabled s" by simp_all
  note f = sendMessage_fields [OF ne]
  from g en have "pending s = []" by (simp add: guarded_def)
  then show ?thesis
    using en by (simp add: step_def guarded_def pending_def f)
qed

lemma guarded_resume: "guarded s \<Longrightarrow> guarded (resume_reveal E s k)"
proof (cases "find_task (awaits k) (tasks s) 0")
  case None
  assume "guarded s"
  with None show ?thesis by (simp add: resume_reveal_def)
next
  case (Some t)
  assume g: "guarded s"
  from find_task_Some [OF Some] have t: "t < length (tasks s)" and a: "awaits k (tasks s ! t)"
    by simp_all
  from a obtain b d where p: "phase (tasks s ! t) = AwaitReveal b d k"
    by (auto simp: awaits_def split: phase.splits)
  have "guarded (sendMessage_revealed E s t b d)"
  proof (cases "note_text E d")
    case (Inl m)
    show ?thesis
      by (rule guarded_finish [OF g t]) (simp_all add: p sendMessage_revealed_throw_fields [OF Inl])
  next
    case (Inr str)
    show ?thesis
      by (rule guarded_finish [OF g t]) (simp_all add: p sendMessage_revealed_ok_fields [OF Inr])
  qed
  then show ?thesis by (simp add: resume_reveal_def Some p)
qed

lemma guarded_step:
  assumes g: "guarded s" and ev: "ev \<noteq> Keydown (lit ''Enter'')"
  shows "guarded (step E s ev)"
proof (cases ev)
  case (Edit v)
  with g show ?thesis by (simp add: step_def guarded_same [OF g])
next
  case Click
  with guarded_click [OF g] show ?thesis by simp
next
  case (Keydown key)
  with ev g show ?thesis by (simp add: step_def)
next
  case (Tick k)
  obtain s1 r where fi: "fire_interval E s k = (s1, r)"
    by (cases "fire_interval E s k")
  with fire_interval_frame(1,5) [of E s k] have "guarded s1"
    by (intro guarded_same [OF g]) simp_all
  with guarded_resume [of s1 E k] Tick fi show ?thesis
    by (simp add: step_def)
next
  case (FetchResolve t status)
  show ?thesis
  proof (cases "in_phase s t AwaitFetch")
    case True
    then have "guarded (s\<lparr>tasks := (tasks s)[t := (tasks s ! t)\<lparr>phase := AwaitJson\<rparr>]\<rparr>)"
      by (intro guarded_keep [OF g, of t AwaitJson]) (simp_all add: in_phase_def)
    with True FetchResolve show ?thesis by (simp add: step_def)
  next
    case False
    with g FetchResolve show ?thesis by (simp add: step_def)
  qed
next
  case (FetchReject t m)
  show ?thesis
  proof (cases "in_phase s t AwaitFetch")
    case True
    then have "guarded (sendMessage_catch s t m)"
      by (intro guarded_finish [OF g, of t]) (simp_all add: in_phase_def sendMessage_catch_fields)
    with True FetchReject show ?thesis by (simp add: step_def)
  next
    case False
    with g FetchReject show ?thesis by (simp add: step_def)
  qed
next
  case (JsonResolve t data)
  show ?thesis
  proof (cases "in_phase s t AwaitJson")
    case True
    have "guarded (sendMessage_data E s t data)"
    proof (cases "replyText data")
      case None
      from True show ?thesis
        by (intro guarded_finish [OF g, of t])
          (simp_all add: in_phase_def sendMessage_data_throw_fields [OF None])
    next
      case (Some reply)
      from True show ?thesis
        by (intro guarded_keep [OF g, of t "AwaitReveal (next_node s) data (next_timer s)"])
          (simp_all add: in_phase_def sendMessage_data_reply_fields [OF Some])
    qed
    with True JsonResolve show ?thesis by (simp add: step_def)
  next
    case False
    with g JsonResolve show ?thesis by (simp add: step_def)
  qed
next
  case (JsonReject t m)
  show ?thesis
  proof (cases "in_phase s t AwaitJson")
    case True
    then have "guarded (sendMessage_catch s t m)"
      by (intro guarded_finish [OF g, of t]) (simp_all add: in_phase_def sendMessage_catch_fields)
    with True JsonReject show ?thesis by (simp add: step_def)
  next
    case False
    with g JsonReject show ?thesis by (simp add: step_def)
  qed
qed

lemma clicks_only_one_pending:
  assumes "loaded s0" and "Keydown (lit ''Enter'') \<notin> set evs"
  shows "length (pending (run E s0 evs)) \<le> 1 \<and>
         (btn_disabled (run E s0 evs) \<longleftrightarrow> pending (run E s0 evs) \<noteq> [])"
proof -
  from assms(1) have "guarded s0"
    by (simp add: loaded_def guarded_def pending_def)
  then have "guarded (run E s0 evs)"
    using assms(2)
  proof (induction evs arbitrary: s0)
    case Nil
    then show ?case by simp
  next
    case (Cons ev evs)
    from Cons.prems have "ev \<noteq> Keydown (lit ''Enter'')" "Keydown (lit ''Enter'') \<notin> set evs"
      by auto
    from Cons.IH [OF guarded_step [OF Cons.prems(1) this(1)] this(2)] show ?case
      by simp
  qed
  then show ?thesis
    by (simp add: guarded_def)
qed

section \<open>Trimming\<close>

lemma dropWhile_all_Nil:
  "(\<forall>x \<in> set (dropWhile P v). P x) \<Longrightarrow> dropWhile P v = []"
proof (cases "dropWhile P v")
  case Nil
  then show ?thesis .
next
  case (Cons y ys)
  assume a: "\<forall>x \<in> set (dropWhile P v). P x"
  have "\<not> P (hd (dropWhile P v))"
    by (rule hd_dropWhile) (simp add: Cons)
  moreover have "P (hd (dropWhile P v))"
    using a by (simp add: Cons)
  ultimately show ?thesis by simp
qed

lemma trim_empty_iff: "trim v = [] \<longleftrightarrow> (\<forall>c \<in> set v. is_ws c)"
proof
  assume "trim v = []"
  then have "\<forall>x \<in> set (dropWhile is_ws v). is_ws x"
    by (simp add: trim_def)
  then have "dropWhile is_ws v = []"
    by (rule dropWhile_all_Nil)
  then show "\<forall>c \<in> set v. is_ws c"
    by simp
next
  assume "\<forall>c \<in> set v. is_ws c"
  then have d: "dropWhile is_ws v = []"
    by simp
  show "trim v = []"
    unfolding trim_def d by simp
qed

section \<open>The claims\<close>

subsection \<open>C1: one exchange at a time\<close>

text \<open>
  Claim C1: at most one request is in flight at a time; a send attempt while one is pending
  is not offered, and pressing Enter in the input is subject to the same guard as the send
  button.

  The guard is the button's \<open>disabled\<close> flag, which only the click listener depends on. The
  listener of the input field calls \<open>sendMessage\<close> whatever the flag says, and
  \<open>sendMessage\<close> does not read it. After "a" has been sent and while its request is
  pending, typing "b" and pressing Enter issues a second request; a click in its place
  issues none (and \<open>clicks_only_one_pending\<close> above: without Enter, at most one call is
  ever pending).
\<close>

theorem enter_while_pending_issues_second_request:
  "(let s = run E empty_page [Edit (lit ''a''), Click, Edit (lit ''b''), Keydown (lit ''Enter'')] in
      btn_disabled s \<and> map phase (tasks s) = [AwaitFetch, AwaitFetch] \<and>
      effects s = [AppendChat 0, AppendChat 1, SetInterval 0, Fetch API_URL (lit ''a''),
                   AppendChat 3, AppendChat 4, SetInterval 1, Fetch API_URL (lit ''b'')]) \<and>
   (let s = run E empty_page [Edit (lit ''a''), Click, Edit (lit ''b''), Click] in
      btn_disabled s \<and> map phase (tasks s) = [AwaitFetch] \<and>
      effects s = [AppendChat 0, AppendChat 1, SetInterval 0, Fetch API_URL (lit ''a'')])"
  by code_simp

subsection \<open>C2: which responses take the failure path\<close>

text \<open>
  Claim C2: for every exchange whose response has a non-2xx status, and for every network
  failure or non-JSON body, the failure handler runs and the success path does not.

  The script never reads the response's status. As amended: when \<open>fetch\<close> rejects (a
  network failure) or \<open>res.json()\<close> rejects (a body that is not JSON), the call ends in
  the \<open>catch\<close> block: the typing indicator is stopped, one entry with the marker and the
  message is appended, no reveal is started and the call returns. A response that
  \<open>fetch\<close> resolves with goes on to \<open>res.json()\<close> whatever its status is.
\<close>

theorem rejection_takes_catch_path:
  "(in_phase s t AwaitFetch \<and> ev = FetchReject t m \<or> in_phase s t AwaitJson \<and> ev = JsonReject t m \<longrightarrow>
      phase (tasks (step E s ev) ! t) = Finished \<and>
      effects (step E s ev) =
        effects s @ [ClearInterval (typing_int (tasks s ! t)), RemoveNode (typing_el (tasks s ! t)),
                     AppendChat (next_node s)] \<and>
      innerText (nodes (step E s ev) (next_node s)) = error_marker @ m \<and>
      timers (step E s ev) = filter (\<lambda>e. fst e \<noteq> typing_int (tasks s ! t)) (timers s)) \<and>
   step E s (FetchResolve t status) = step E s (FetchResolve t 200) \<and>
   (in_phase s t AwaitFetch \<longrightarrow> in_phase (step E s (FetchResolve t status)) t AwaitJson)"
  by (auto simp: step_def in_phase_def sendMessage_catch_fields)

theorem rejection_takes_catch_path_witness:
  "(let E = \<lparr>prop_error_message = (\<lambda>n. []), to_string = (\<lambda>v. Inr []), rendered_text = (\<lambda>el t. t)\<rparr>;
        s = run E empty_page [Edit (lit ''hi''), Click];
        s' = step E s (FetchReject 0 (lit ''timeout''))
    in in_phase s 0 AwaitFetch \<and> phase (tasks s' ! 0) = Finished \<and>
       effects s' = effects s @ [ClearInterval 0, RemoveNode 1, AppendChat 3] \<and>
       innerText (nodes s' 3) = error_marker @ lit ''timeout'' \<and> timers s' = [])"
proof -
  let ?E = "\<lparr>prop_error_message = (\<lambda>n. []), to_string = (\<lambda>v. Inr []), rendered_text = (\<lambda>el t. t)\<rparr>"
  let ?s = "run ?E empty_page [Edit (lit ''hi''), Click]"
  have a: "in_phase ?s 0 AwaitFetch" by code_simp
  have b: "typing_int (tasks ?s ! 0) = 0" "typing_el (tasks ?s ! 0) = 1" "next_node ?s = 3"
    "timers ?s = [(0, 400, Dots 2 0)]"
    by code_simp+
  from rejection_takes_catch_path [of ?s 0 "FetchReject 0 (lit ''timeout'')" "lit ''timeout''" ?E 200] a
  show ?thesis
    by (simp add: b Let_def del: run.simps)
qed

text \<open>
  A response with status 500 and the JSON body \<open>{"error": "boom"}\<close> takes the success path:
  the bot element is appended and the reveal of "No reply" is started; no error entry is
  written.
\<close>

theorem non_2xx_json_takes_success_path:
  "(let E = \<lparr>prop_error_message = (\<lambda>n. []), to_string = (\<lambda>v. Inr []), rendered_text = (\<lambda>el t. t)\<rparr>;
        s = run E empty_page [Edit (lit ''hi''), Click, FetchResolve 0 500,
              JsonResolve 0 (JObj [(lit ''error'', JStr (lit ''boom''))])]
    in phase (tasks s ! 0) = AwaitReveal 3 (JObj [(lit ''error'', JStr (lit ''boom''))]) 1 \<and>
       timers s = [(1, 14, Reveal 3 (JStr (lit ''No reply'')) 0)] \<and>
       map (\<lambda>n. (className (nodes s n), innerText (nodes s n))) (chat_kids s) =
         [(lit ''message user'', lit ''hi''), (lit ''message bot'', [])])"
  by code_simp

subsection \<open>C3: the fallback chain of the reply\<close>

text \<open>
  Claim C3: the reply is the field \<open>answer\<close> when present, otherwise the field
  \<open>response\<close>, otherwise "No reply".

  The chain tests the value of a field, not its presence. As amended: the reply is
  \<open>answer\<close> when it is present and truthy; otherwise \<open>response\<close> when it is present and
  truthy; otherwise "No reply".
\<close>

theorem reply_fallback_chain:
  "(map_of kv (lit ''answer'') = Some a \<and> truthy a \<longrightarrow> replyText (JObj kv) = Some a) \<and>
   ((map_of kv (lit ''answer'') = None \<or> (\<exists>a'. map_of kv (lit ''answer'') = Some a' \<and> \<not> truthy a'))
      \<and> map_of kv (lit ''response'') = Some r \<and> truthy r \<longrightarrow> replyText (JObj kv) = Some r) \<and>
   ((map_of kv (lit ''answer'') = None \<or> (\<exists>a'. map_of kv (lit ''answer'') = Some a' \<and> \<not> truthy a'))
      \<and> (map_of kv (lit ''response'') = None \<or> (\<exists>r'. map_of kv (lit ''response'') = Some r' \<and> \<not> truthy r'))
      \<longrightarrow> replyText (JObj kv) = Some (JStr (lit ''No reply'')))"
  by (auto simp: replyText_def split: option.splits)

text \<open>The four examples of the specification.\<close>

theorem reply_fallback_chain_witness:
  "replyText (JObj [(lit ''answer'', JStr (lit ''A''))]) = Some (JStr (lit ''A'')) \<and>
   replyText (JObj [(lit ''response'', JStr (lit ''B''))]) = Some (JStr (lit ''B'')) \<and>
   replyText (JObj []) = Some (JStr (lit ''No reply'')) \<and>
   replyText (JObj [(lit ''answer'', JStr (lit ''A'')), (lit ''response'', JStr (lit ''B''))])
     = Some (JStr (lit ''A''))"
  using reply_fallback_chain [of "[(lit ''answer'', JStr (lit ''A''))]" "JStr (lit ''A'')" "JStr (lit ''B'')"]
    reply_fallback_chain [of "[(lit ''response'', JStr (lit ''B''))]" "JStr (lit ''A'')" "JStr (lit ''B'')"]
    reply_fallback_chain [of "[]" "JStr (lit ''A'')" "JStr (lit ''B'')"]
    reply_fallback_chain [of "[(lit ''answer'', JStr (lit ''A'')), (lit ''response'', JStr (lit ''B''))]"
      "JStr (lit ''A'')" "JStr (lit ''B'')"]
  by (simp add: lit_eq_iff lit_Nil_iff)

text \<open>The field \<open>answer\<close> is present and empty: the reply is \<open>response\<close>, not \<open>answer\<close>.\<close>

theorem present_but_empty_answer_is_skipped:
  "map_of [(lit ''answer'', JStr []), (lit ''response'', JStr (lit ''B''))] (lit ''answer'') = Some (JStr []) \<and>
   replyText (JObj [(lit ''answer'', JStr []), (lit ''response'', JStr (lit ''B''))]) = Some (JStr (lit ''B'')) \<and>
   JStr (lit ''B'') \<noteq> JStr []"
  by (simp add: replyText_def lit_eq_iff lit_Nil_iff)

subsection \<open>C4: the reveal animation\<close>




subsection \<open>C5: the typing indicator is stopped first\<close>

text \<open>
  Claim C5: in every submit cycle, on the success path and on the failure path, the interval
  of the typing indicator is cleared and its placeholder removed before the bot message (the
  element of the reply, or the error entry) is appended, and no timer is left behind by a
  completed cycle.

  For every page \<open>s\<close> reached from a loaded page:

  \<^item> failure path: when call \<open>t\<close> awaits \<open>fetch\<close> or \<open>res.json()\<close> and that promise rejects
    with message \<open>m\<close>, the turn does exactly three things, in this order: it clears the
    typing interval of \<open>t\<close>, removes the placeholder of \<open>t\<close>, and appends a new element of
    class \<open>message bot\<close> with the marker and \<open>m\<close>; after it the set intervals are those of
    before without the typing interval of \<open>t\<close>, the placeholder is not in the chat box and
    \<open>t\<close> has returned;
  \<^item> success path: when call \<open>t\<close> awaits \<open>res.json()\<close> and it resolves with \<open>data\<close>, the
    turn first clears the typing interval of \<open>t\<close>, then removes the placeholder of \<open>t\<close>,
    then appends the new element of class \<open>message bot\<close>; when a reply text is selected
    the only further operation is the start of the reveal interval, the set intervals are
    those of before without the typing interval plus the reveal interval, and \<open>t\<close> awaits
    that reveal;
  \<^item> completion: when call \<open>t\<close> awaits the reveal of interval \<open>k\<close> and a tick of \<open>k\<close>
    resolves it, \<open>t\<close> returns in that turn and afterwards neither \<open>k\<close> nor the typing
    interval of \<open>t\<close> is set and no interval has been added; the turn clears \<open>k\<close> and, unless
    building the source note throws, does nothing else to the chat box (when it throws, the
    failure handler clears, removes and appends the error entry, in this order);
  \<^item> every turn: whenever a turn appends an element of class \<open>message bot\<close>, the one call
    that ran in that turn was pending before it, and the turn has before, in this order,
    cleared the typing interval and removed the placeholder of that call, which are not set
    and not in the chat box after the turn;
  \<^item> the typing interval of a call that has returned is not set, and every interval that is
    set belongs to a call that has not returned.
\<close>

theorem typing_indicator_stopped_before_bot_message:
  assumes "loaded s0"
  shows "let s = run E s0 evs in
     (\<forall>t m ev. in_phase s t AwaitFetch \<and> ev = FetchReject t m \<or>
               in_phase s t AwaitJson \<and> ev = JsonReject t m \<longrightarrow>
        effects (step E s ev) =
          effects s @ [ClearInterval (typing_int (tasks s ! t)), RemoveNode (typing_el (tasks s ! t)),
                       AppendChat (next_node s)] \<and>
        className (nodes (step E s ev) (next_node s)) = lit ''message bot'' \<and>
        innerText (nodes (step E s ev) (next_node s)) = error_marker @ m \<and>
        timer_ids (step E s ev) = filter (\<lambda>k. k \<noteq> typing_int (tasks s ! t)) (timer_ids s) \<and>
        typing_el (tasks s ! t) \<notin> set (chat_kids (step E s ev)) \<and>
        in_phase (step E s ev) t Finished) \<and>
     (\<forall>t data. in_phase s t AwaitJson \<longrightarrow>
        (\<exists>rest. effects (step E s (JsonResolve t data)) =
           effects s @ [ClearInterval (typing_int (tasks s ! t)), RemoveNode (typing_el (tasks s ! t)),
                        AppendChat (next_node s)] @ rest) \<and>
        className (nodes (step E s (JsonResolve t data)) (next_node s)) = lit ''message bot'' \<and>
        typing_int (tasks s ! t) \<notin> set (timer_ids (step E s (JsonResolve t data))) \<and>
        typing_el (tasks s ! t) \<notin> set (chat_kids (step E s (JsonResolve t data))) \<and>
        (\<forall>reply. replyText data = Some reply \<longrightarrow>
           effects (step E s (JsonResolve t data)) =
             effects s @ [ClearInterval (typing_int (tasks s ! t)), RemoveNode (typing_el (tasks s ! t)),
                          AppendChat (next_node s), SetInterval (next_timer s)] \<and>
           timer_ids (step E s (JsonResolve t data)) =
             filter (\<lambda>k. k \<noteq> typing_int (tasks s ! t)) (timer_ids s) @ [next_timer s] \<and>
           in_phase (step E s (JsonResolve t data)) t (AwaitReveal (next_node s) data (next_timer s)))) \<and>
     (\<forall>t b d k. in_phase s t (AwaitReveal b d k) \<and> snd (fire_interval E s k) \<longrightarrow>
        in_phase (step E s (Tick k)) t Finished \<and>
        set (timer_ids (step E s (Tick k))) \<subseteq> set (timer_ids s) - {k, typing_int (tasks s ! t)} \<and>
        (case note_text E d of
           Inr str \<Rightarrow> effects (step E s (Tick k)) = effects s @ [ClearInterval k]
         | Inl m \<Rightarrow>
             effects (step E s (Tick k)) =
               effects s @ [ClearInterval k, ClearInterval (typing_int (tasks s ! t)),
                            RemoveNode (typing_el (tasks s ! t)), AppendChat (Suc (next_node s))] \<and>
             className (nodes (step E s (Tick k)) (Suc (next_node s))) = lit ''message bot'' \<and>
             innerText (nodes (step E s (Tick k)) (Suc (next_node s))) = error_marker @ m)) \<and>
     (\<forall>ev i b. i < length (drop (length (effects s)) (effects (step E s ev))) \<and>
        drop (length (effects s)) (effects (step E s ev)) ! i = AppendChat b \<and>
        className (nodes (step E s ev) b) = lit ''message bot'' \<longrightarrow>
        (\<exists>t < length (tasks s).
           ClearInterval (typing_int (tasks s ! t))
             \<in> set (take i (drop (length (effects s)) (effects (step E s ev)))) \<and>
           RemoveNode (typing_el (tasks s ! t))
             \<in> set (take i (drop (length (effects s)) (effects (step E s ev)))) \<and>
           typing_int (tasks s ! t) \<notin> set (timer_ids (step E s ev)) \<and>
           typing_el (tasks s ! t) \<notin> set (chat_kids (step E s ev)) \<and>
           phase (tasks s ! t) \<noteq> Finished \<and>
           (\<exists>p. p \<noteq> phase (tasks s ! t) \<and>
              tasks (step E s ev) = (tasks s)[t := (tasks s ! t)\<lparr>phase := p\<rparr>]))) \<and>
     (\<forall>t < length (tasks s). phase (tasks s ! t) = Finished \<longrightarrow>
        typing_int (tasks s ! t) \<notin> set (timer_ids s)) \<and>
     (\<forall>k \<in> set (timer_ids s). \<exists>t < length (tasks s). owns (tasks s ! t) k)"
proof -
  define s where "s = run E s0 evs"
  from assms have ok: "page_ok s" and sw: "single_waiter s"
    unfolding s_def by (simp_all add: reachable_ok loaded_page_ok loaded_single_waiter)
  have fail: "effects (step E s ev) =
          effects s @ [ClearInterval (typing_int (tasks s ! t)), RemoveNode (typing_el (tasks s ! t)),
                       AppendChat (next_node s)] \<and>
        className (nodes (step E s ev) (next_node s)) = lit ''message bot'' \<and>
        innerText (nodes (step E s ev) (next_node s)) = error_marker @ m \<and>
        timer_ids (step E s ev) = filter (\<lambda>k. k \<noteq> typing_int (tasks s ! t)) (timer_ids s) \<and>
        typing_el (tasks s ! t) \<notin> set (chat_kids (step E s ev)) \<and>
        in_phase (step E s ev) t Finished"
    if "in_phase s t AwaitFetch \<and> ev = FetchReject t m \<or> in_phase s t AwaitJson \<and> ev = JsonReject t m"
    for t m ev
  proof -
    from that have t: "t < length (tasks s)" and st: "step E s ev = sendMessage_catch s t m"
      by (auto simp: in_phase_def step_def)
    from failure_path_stops_typing [OF ok t, of m] show ?thesis
      unfolding st .
  qed
  have succ: "(\<exists>rest. effects (step E s (JsonResolve t data)) =
           effects s @ [ClearInterval (typing_int (tasks s ! t)), RemoveNode (typing_el (tasks s ! t)),
                        AppendChat (next_node s)] @ rest) \<and>
        className (nodes (step E s (JsonResolve t data)) (next_node s)) = lit ''message bot'' \<and>
        typing_int (tasks s ! t) \<notin> set (timer_ids (step E s (JsonResolve t data))) \<and>
        typing_el (tasks s ! t) \<notin> set (chat_kids (step E s (JsonResolve t data))) \<and>
        (\<forall>reply. replyText data = Some reply \<longrightarrow>
           effects (step E s (JsonResolve t data)) =
             effects s @ [ClearInterval (typing_int (tasks s ! t)), RemoveNode (typing_el (tasks s ! t)),
                          AppendChat (next_node s), SetInterval (next_timer s)] \<and>
           timer_ids (step E s (JsonResolve t data)) =
             filter (\<lambda>k. k \<noteq> typing_int (tasks s ! t)) (timer_ids s) @ [next_timer s] \<and>
           in_phase (step E s (JsonResolve t data)) t (AwaitReveal (next_node s) data (next_timer s)))"
    if "in_phase s t AwaitJson" for t data
  proof -
    from that have t: "t < length (tasks s)"
      and st: "step E s (JsonResolve t data) = sendMessage_data E s t data"
      by (auto simp: in_phase_def step_def)
    from success_path_stops_typing [OF ok t, of E data] show ?thesis
      unfolding st .
  qed
  have compl: "in_phase (step E s (Tick k)) t Finished \<and>
        set (timer_ids (step E s (Tick k))) \<subseteq> set (timer_ids s) - {k, typing_int (tasks s ! t)} \<and>
        (case note_text E d of
           Inr str \<Rightarrow> effects (step E s (Tick k)) = effects s @ [ClearInterval k]
         | Inl m \<Rightarrow>
             effects (step E s (Tick k)) =
               effects s @ [ClearInterval k, ClearInterval (typing_int (tasks s ! t)),
                            RemoveNode (typing_el (tasks s ! t)), AppendChat (Suc (next_node s))] \<and>
             className (nodes (step E s (Tick k)) (Suc (next_node s))) = lit ''message bot'' \<and>
             innerText (nodes (step E s (Tick k)) (Suc (next_node s))) = error_marker @ m)"
    if "in_phase s t (AwaitReveal b d k) \<and> snd (fire_interval E s k)" for t b d k
    using reveal_completion [OF ok sw, of t b d k E] that by blast
  have a: "\<exists>t < length (tasks s).
      ClearInterval (typing_int (tasks s ! t))
        \<in> set (take i (drop (length (effects s)) (effects (step E s ev)))) \<and>
      RemoveNode (typing_el (tasks s ! t))
        \<in> set (take i (drop (length (effects s)) (effects (step E s ev)))) \<and>
      typing_int (tasks s ! t) \<notin> set (timer_ids (step E s ev)) \<and>
      typing_el (tasks s ! t) \<notin> set (chat_kids (step E s ev)) \<and>
      phase (tasks s ! t) \<noteq> Finished \<and>
      (\<exists>p. p \<noteq> phase (tasks s ! t) \<and>
         tasks (step E s ev) = (tasks s)[t := (tasks s ! t)\<lparr>phase := p\<rparr>])"
    if i: "i < length (drop (length (effects s)) (effects (step E s ev))) \<and>
        drop (length (effects s)) (effects (step E s ev)) ! i = AppendChat b \<and>
        className (nodes (step E s ev) b) = lit ''message bot''"
    for ev i b
  proof -
    define s' where "s' = step E s ev"
    define new where "new = drop (length (effects s)) (effects s')"
    from i have i: "i < length new" "new ! i = AppendChat b"
      and c: "className (nodes s' b) = lit ''message bot''"
      by (simp_all add: new_def s'_def)
    from step_shape [OF ok, of E ev] consider "no_bot_message s s'" | "stops_typing s s'"
      unfolding s'_def by blast
    then have "\<exists>t < length (tasks s).
      ClearInterval (typing_int (tasks s ! t)) \<in> set (take i new) \<and>
      RemoveNode (typing_el (tasks s ! t)) \<in> set (take i new) \<and>
      typing_int (tasks s ! t) \<notin> set (timer_ids s') \<and>
      typing_el (tasks s ! t) \<notin> set (chat_kids s') \<and>
      phase (tasks s ! t) \<noteq> Finished \<and>
      (\<exists>p. p \<noteq> phase (tasks s ! t) \<and> tasks s' = (tasks s)[t := (tasks s ! t)\<lparr>phase := p\<rparr>])"
    proof cases
      case 1
      then obtain new' where n: "effects s' = effects s @ new'"
        and nb: "\<And>b. AppendChat b \<in> set new' \<Longrightarrow> className (nodes s' b) \<noteq> lit ''message bot''"
        unfolding no_bot_message_def by blast
      from n have "new = new'" by (simp add: new_def)
      with i have "AppendChat b \<in> set new'"
        by (metis nth_mem)
      from nb [OF this] c show ?thesis by simp
    next
      case 2
      then obtain t pre rest where t: "t < length (tasks s)"
        and n: "effects s' = effects s @ pre @ [ClearInterval (typing_int (tasks s ! t)),
              RemoveNode (typing_el (tasks s ! t))] @ rest"
        and pre: "\<And>b. AppendChat b \<notin> set pre"
        and st: "typing_int (tasks s ! t) \<notin> set (timer_ids s')"
          "typing_el (tasks s ! t) \<notin> set (chat_kids s')"
          "phase (tasks s ! t) \<noteq> Finished"
          "\<exists>p. p \<noteq> phase (tasks s ! t) \<and> tasks s' = (tasks s)[t := (tasks s ! t)\<lparr>phase := p\<rparr>]"
        unfolding stops_typing_def by blast
      from n have "new = pre @ [ClearInterval (typing_int (tasks s ! t)),
          RemoveNode (typing_el (tasks s ! t))] @ rest"
        by (simp add: new_def)
      from stopped_before [OF this pre i] t st show ?thesis by blast
    qed
    then show ?thesis
      unfolding new_def s'_def .
  qed
  have b: "typing_int (tasks s ! t) \<notin> set (timer_ids s)"
    if "t < length (tasks s)" "phase (tasks s ! t) = Finished" for t
    using page_ok_task [OF ok that(1)] that(2) by (simp add: task_ok_cases)
  have c: "\<exists>t < length (tasks s). owns (tasks s ! t) k" if "k \<in> set (timer_ids s)" for k
    using page_ok_owner [OF ok that] .
  from fail succ compl a b c show ?thesis
    unfolding Let_def s_def [symmetric] by blast
qed

theorem typing_indicator_stopped_before_bot_message_witness:
  "loaded empty_page \<and>
   (let E = \<lparr>prop_error_message = (\<lambda>n. []), to_string = (\<lambda>v. Inr []), rendered_text = (\<lambda>el t. t)\<rparr>;
        data = JObj [(lit ''answer'', JStr (lit ''y''))];
        sF = run E empty_page [Edit (lit ''hi''), Click];
        sF' = step E sF (FetchReject 0 (lit ''timeout''));
        sJ = run E empty_page [Edit (lit ''hi''), Click, FetchResolve 0 200];
        sJ' = step E sJ (JsonResolve 0 data);
        sR = run E empty_page [Edit (lit ''hi''), Click, FetchResolve 0 200, JsonResolve 0 data];
        sR' = step E sR (Tick 1)
    in in_phase sF 0 AwaitFetch \<and> timer_ids sF = [0] \<and> chat_kids sF = [0, 1] \<and>
       effects sF' = effects sF @ [ClearInterval 0, RemoveNode 1, AppendChat 3] \<and>
       className (nodes sF' 3) = lit ''message bot'' \<and>
       innerText (nodes sF' 3) = error_marker @ lit ''timeout'' \<and>
       timer_ids sF' = [] \<and> chat_kids sF' = [0, 3] \<and> in_phase sF' 0 Finished \<and>
       in_phase sJ 0 AwaitJson \<and> timer_ids sJ = [0] \<and>
       effects sJ' = effects sJ @ [ClearInterval 0, RemoveNode 1, AppendChat 3, SetInterval 1] \<and>
       className (nodes sJ' 3) = lit ''message bot'' \<and>
       timer_ids sJ' = [1] \<and> chat_kids sJ' = [0, 3] \<and> in_phase sJ' 0 (AwaitReveal 3 data 1) \<and>
       sR = sJ' \<and> snd (fire_interval E sR 1) \<and>
       in_phase sR' 0 Finished \<and> timer_ids sR' = [] \<and> effects sR' = effects sR @ [ClearInterval 1])"
proof -
  define E where "E = \<lparr>prop_error_message = (\<lambda>n. []), to_string = (\<lambda>v. Inr ([] :: jstring)),
    rendered_text = (\<lambda>(el :: nat) (t :: jstring). t)\<rparr>"
  define data where "data = JObj [(lit ''answer'', JStr (lit ''y''))]"
  define sF where "sF = run E empty_page [Edit (lit ''hi''), Click]"
  define sF' where "sF' = step E sF (FetchReject 0 (lit ''timeout''))"
  define sJ where "sJ = run E empty_page [Edit (lit ''hi''), Click, FetchResolve 0 200]"
  define sJ' where "sJ' = step E sJ (JsonResolve 0 data)"
  define sR where "sR = run E empty_page [Edit (lit ''hi''), Click, FetchResolve 0 200, JsonResolve 0 data]"
  define sR' where "sR' = step E sR (Tick 1)"
  have l: "loaded empty_page"
    by (simp add: loaded_def empty_page_def)
  have pF: "in_phase sF 0 AwaitFetch"
    and vF: "timer_ids sF = [0]" "chat_kids sF = [0, 1]" "next_node sF = 3"
      "typing_int (tasks sF ! 0) = 0" "typing_el (tasks sF ! 0) = 1"
    unfolding sF_def E_def by code_simp+
  have kF: "chat_kids sF' = [0, 3]"
    unfolding sF'_def sF_def E_def by code_simp
  have pJ: "in_phase sJ 0 AwaitJson"
    and vJ: "timer_ids sJ = [0]" "next_node sJ = 3" "next_timer sJ = 1"
      "typing_int (tasks sJ ! 0) = 0" "typing_el (tasks sJ ! 0) = 1"
    unfolding sJ_def E_def by code_simp+
  have kJ: "chat_kids sJ' = [0, 3]" and rJ: "replyText data = Some (JStr (lit ''y''))"
    unfolding sJ'_def sJ_def E_def data_def by code_simp+
  have pR: "in_phase sR 0 (AwaitReveal 3 data 1)" and fR: "snd (fire_interval E sR 1)"
    and vR: "timer_ids sR = [1]" "note_text E data = Inr []"
    unfolding sR_def E_def data_def by code_simp+
  have eR: "sR = sJ'"
    by (simp add: sR_def sJ'_def sJ_def)
  note TF = typing_indicator_stopped_before_bot_message
    [OF l, of E "[Edit (lit ''hi''), Click]", unfolded Let_def, folded sF_def]
  note TJ = typing_indicator_stopped_before_bot_message
    [OF l, of E "[Edit (lit ''hi''), Click, FetchResolve 0 200]", unfolded Let_def, folded sJ_def]
  note TR = typing_indicator_stopped_before_bot_message
    [OF l, of E "[Edit (lit ''hi''), Click, FetchResolve 0 200, JsonResolve 0 data]",
     unfolded Let_def, folded sR_def]
  from TF [THEN conjunct1, rule_format, of 0 "FetchReject 0 (lit ''timeout'')" "lit ''timeout''"] pF
  have F: "effects sF' = effects sF @ [ClearInterval 0, RemoveNode 1, AppendChat 3] \<and>
       className (nodes sF' 3) = lit ''message bot'' \<and>
       innerText (nodes sF' 3) = error_marker @ lit ''timeout'' \<and>
       timer_ids sF' = [] \<and> in_phase sF' 0 Finished"
    unfolding sF'_def [symmetric] by (simp add: vF)
  from TJ [THEN conjunct2, THEN conjunct1, rule_format, of 0 data] pJ rJ
  have J: "effects sJ' = effects sJ @ [ClearInterval 0, RemoveNode 1, AppendChat 3, SetInterval 1] \<and>
       className (nodes sJ' 3) = lit ''message bot'' \<and>
       timer_ids sJ' = [1] \<and> in_phase sJ' 0 (AwaitReveal 3 data 1)"
    unfolding sJ'_def [symmetric] by (simp add: vJ)
  from TR [THEN conjunct2, THEN conjunct2, THEN conjunct1, rule_format, of 0 3 data 1] pR fR
  have R: "in_phase sR' 0 Finished \<and> timer_ids sR' = [] \<and> effects sR' = effects sR @ [ClearInterval 1]"
    unfolding sR'_def [symmetric] by (simp add: vR)
  from l pF vF(1,2) F kF pJ vJ(1) J kJ eR fR R show ?thesis
    unfolding Let_def E_def [symmetric] data_def [symmetric] sF_def [symmetric] sF'_def [symmetric]
      sJ_def [symmetric] sJ'_def [symmetric] sR_def [symmetric] sR'_def [symmetric]
    by simp
qed

subsection \<open>C6: the send button during a cycle\<close>

text \<open>
  Claim C6: the send button is disabled from the start of a submit until the cycle is
  complete, and enabled again at completion whatever the outcome.

  Every call of \<open>sendMessage\<close> enables the button when it returns, also while another
  call is pending. With the second request of C1 in flight, the failure of the first one
  enables the button. Without Enter the claim holds (\<open>clicks_only_one_pending\<close> above:
  the button is disabled exactly while a call is pending).
\<close>

theorem button_enabled_while_request_pending:
  "(let s = run E empty_page [Edit (lit ''a''), Click, Edit (lit ''b''), Keydown (lit ''Enter''),
              FetchReject 0 (lit ''timeout'')] in
      map phase (tasks s) = [Finished, AwaitFetch] \<and> \<not> btn_disabled s)"
  by code_simp

subsection \<open>C7: blank input\<close>

text \<open>
  Claim C7: when the trimmed input is empty (the input is empty or holds white space only),
  submit is a no-op: nothing is appended, no exchange is issued and no state changes. The
  page after \<open>sendMessage\<close>, after a click and after Enter is the page before.
\<close>

theorem blank_input_is_noop:
  "(trim (input_value s) = [] \<longleftrightarrow> (\<forall>c \<in> set (input_value s). is_ws c)) \<and>
   (trim (input_value s) = [] \<longrightarrow>
      sendMessage s = s \<and> step E s Click = s \<and> step E s (Keydown (lit ''Enter'')) = s)"
  by (simp add: trim_empty_iff sendMessage_def step_def)

theorem blank_input_is_noop_witness:
  "trim [32, 9, 160] = [] \<and>
   sendMessage (empty_page\<lparr>input_value := [32, 9, 160]\<rparr>) = empty_page\<lparr>input_value := [32, 9, 160]\<rparr> \<and>
   step \<lparr>prop_error_message = (\<lambda>n. []), to_string = (\<lambda>v. Inr []), rendered_text = (\<lambda>el t. t)\<rparr>
     (empty_page\<lparr>input_value := [32, 9, 160]\<rparr>) (Keydown (lit ''Enter''))
     = empty_page\<lparr>input_value := [32, 9, 160]\<rparr>"
  using blank_input_is_noop [of "empty_page\<lparr>input_value := [32, 9, 160]\<rparr>"
      "\<lparr>prop_error_message = (\<lambda>n. []), to_string = (\<lambda>v. Inr []), rendered_text = (\<lambda>el t. t)\<rparr>"]
  by (simp add: is_ws_def)

subsection \<open>C8: the error entry\<close>

text \<open>
  Claim C8: for every failure of the exchange carrying message \<open>m\<close>, the log receives
  exactly one bot entry whose text is the error marker followed by \<open>m\<close>. The exchange fails
  when \<open>fetch\<close> or \<open>res.json()\<close> rejects; the log is then the log before, without the
  placeholder of the typing indicator, followed by one new element of class
  \<open>message bot\<close> with that text, and no other element changes. The \<open>catch\<close> block
  writes that one entry whatever was thrown inside \<open>try\<close>.
\<close>

theorem failure_appends_one_error_entry:
  "(in_phase s t AwaitFetch \<and> ev = FetchReject t m \<or> in_phase s t AwaitJson \<and> ev = JsonReject t m \<longrightarrow>
      chat_kids (step E s ev) = removeAll (typing_el (tasks s ! t)) (chat_kids s) @ [next_node s] \<and>
      className (nodes (step E s ev) (next_node s)) = lit ''message bot'' \<and>
      innerText (nodes (step E s ev) (next_node s)) = error_marker @ m \<and>
      (\<forall>n. n \<noteq> next_node s \<longrightarrow> nodes (step E s ev) n = nodes s n)) \<and>
   chat_kids (sendMessage_catch s t m) = removeAll (typing_el (tasks s ! t)) (chat_kids s) @ [next_node s] \<and>
   className (nodes (sendMessage_catch s t m) (next_node s)) = lit ''message bot'' \<and>
   innerText (nodes (sendMessage_catch s t m) (next_node s)) = error_marker @ m \<and>
   (\<forall>n. n \<noteq> next_node s \<longrightarrow> nodes (sendMessage_catch s t m) n = nodes s n)"
  by (auto simp: step_def in_phase_def sendMessage_catch_fields)

theorem failure_appends_one_error_entry_witness:
  "(let E = \<lparr>prop_error_message = (\<lambda>n. []), to_string = (\<lambda>v. Inr []), rendered_text = (\<lambda>el t. t)\<rparr>;
        s = run E empty_page [Edit (lit ''hi''), Click];
        s' = step E s (FetchReject 0 (lit ''timeout''))
    in in_phase s 0 AwaitFetch \<and> chat_kids s = [0, 1] \<and> chat_kids s' = [0, 3] \<and>
       className (nodes s' 3) = lit ''message bot'' \<and>
       innerText (nodes s' 3) = error_marker @ lit ''timeout'')"
proof -
  let ?E = "\<lparr>prop_error_message = (\<lambda>n. []), to_string = (\<lambda>v. Inr []), rendered_text = (\<lambda>el t. t)\<rparr>"
  let ?s = "run ?E empty_page [Edit (lit ''hi''), Click]"
  have a: "in_phase ?s 0 AwaitFetch" by code_simp
  have b: "typing_el (tasks ?s ! 0) = 1" "next_node ?s = 3" "chat_kids ?s = [0, 1]"
    by code_simp+
  from failure_appends_one_error_entry [of ?s 0 "FetchReject 0 (lit ''timeout'')" "lit ''timeout''" ?E] a
  show ?thesis
    by (simp add: b Let_def del: run.simps)
qed

subsection \<open>C9: the user message comes first\<close>

text \<open>
  Claim C9: for every non-empty trimmed input, submit appends exactly one user message to
  the log before it issues the exchange, and the user message precedes its placeholder and
  its bot response in the log.

  On every page reached from a loaded page, a call of \<open>sendMessage\<close> with a non-empty
  trimmed input appends a new element \<open>u\<close> of class \<open>message user\<close> holding the trimmed
  text, then the placeholder, starts the interval and only then issues the request. Whatever
  events follow, \<open>u\<close> stays in the chat box, the elements before it are elements that were
  there before the call, and every element after it was created after it.
\<close>

theorem user_message_precedes_exchange_and_reply:
  assumes "loaded s0" and "trim (input_value (run E s0 evs)) \<noteq> []"
  shows "let s = run E s0 evs; u = next_node s; s1 = sendMessage s in
     effects s1 = effects s @ [AppendChat u, AppendChat (Suc u), SetInterval (next_timer s),
                               Fetch API_URL (trim (input_value s))] \<and>
     className (nodes s1 u) = lit ''message user'' \<and>
     innerText (nodes s1 u) = trim (input_value s) \<and>
     className (nodes s1 (Suc u)) = lit ''message bot typing'' \<and>
     chat_kids s1 = chat_kids s @ [u, Suc u] \<and>
     u \<notin> set (chat_kids s) \<and>
     (\<forall>evs'. \<exists>pre post. chat_kids (run E s1 evs') = pre @ u # post \<and>
                 set pre \<subseteq> set (chat_kids s) \<and> (\<forall>n \<in> set post. u < n))"
proof -
  define s where "s = run E s0 evs"
  from assms have ok: "page_ok s" and ne: "trim (input_value s) \<noteq> []"
    unfolding s_def by (simp_all add: page_ok_run loaded_page_ok)
  note f = sendMessage_fields [OF ne]
  have fresh: "next_node s \<notin> set (chat_kids s)"
    using page_ok_chat [OF ok, of "next_node s"] by auto
  have "stays_first (next_node s) (set (chat_kids s)) (sendMessage s)"
    unfolding stays_first_def
  proof (intro conjI allI impI)
    fix t assume "t < length (tasks (sendMessage s))"
    then have "t < length (tasks s) \<or> t = length (tasks s)"
      by (auto simp: f)
    then show "typing_el (tasks (sendMessage s) ! t) \<noteq> next_node s"
      using page_ok_task [OF ok, of t] by (auto simp: f nth_append task_ok_cases)
  next
    show "\<exists>pre post. chat_kids (sendMessage s) = pre @ next_node s # post \<and>
        set pre \<subseteq> set (chat_kids s) \<and> (\<forall>n \<in> set post. next_node s < n)"
      by (intro exI [of _ "chat_kids s"] exI [of _ "[Suc (next_node s)]"]) (simp add: f)
  qed (simp add: f)
  from stays_first_run [OF this, of E]
  have later: "\<exists>pre post. chat_kids (run E (sendMessage s) evs') = pre @ next_node s # post \<and>
        set pre \<subseteq> set (chat_kids s) \<and> (\<forall>n \<in> set post. next_node s < n)" for evs'
    unfolding stays_first_def by blast
  have now: "effects (sendMessage s) = effects s @ [AppendChat (next_node s), AppendChat (Suc (next_node s)),
        SetInterval (next_timer s), Fetch API_URL (trim (input_value s))]"
    "className (nodes (sendMessage s) (next_node s)) = lit ''message user''"
    "innerText (nodes (sendMessage s) (next_node s)) = trim (input_value s)"
    "className (nodes (sendMessage s) (Suc (next_node s))) = lit ''message bot typing''"
    "chat_kids (sendMessage s) = chat_kids s @ [next_node s, Suc (next_node s)]"
    by (simp_all add: f)
  from now fresh later show ?thesis
    unfolding Let_def s_def [symmetric] by blast
qed

theorem user_message_precedes_exchange_and_reply_witness:
  "loaded empty_page \<and>
   (let E = \<lparr>prop_error_message = (\<lambda>n. []), to_string = (\<lambda>v. Inr []), rendered_text = (\<lambda>el t. t)\<rparr>;
        s = run E empty_page [Edit (lit ''a''), Click, FetchReject 0 (lit ''timeout''), Edit (lit '' hi '')];
        s1 = sendMessage s
    in trim (input_value s) = lit ''hi'' \<and> next_node s = 4 \<and> chat_kids s = [0, 3] \<and>
       effects s1 = effects s @ [AppendChat 4, AppendChat 5, SetInterval 1, Fetch API_URL (lit ''hi'')] \<and>
       className (nodes s1 4) = lit ''message user'' \<and> innerText (nodes s1 4) = lit ''hi'' \<and>
       chat_kids s1 = [0, 3, 4, 5] \<and>
       (\<exists>pre post. chat_kids (run E s1 [FetchResolve 1 200, JsonResolve 1 (JObj [])]) = pre @ 4 # post \<and>
          set pre \<subseteq> {0, 3} \<and> (\<forall>n \<in> set post. 4 < n)))"
proof -
  define E where "E = \<lparr>prop_error_message = (\<lambda>n. []), to_string = (\<lambda>v. Inr ([] :: jstring)), rendered_text = (\<lambda>el t. t)\<rparr>"
  define evs where "evs = [Edit (lit ''a''), Click, FetchReject 0 (lit ''timeout''), Edit (lit '' hi '')]"
  define s where "s = run E empty_page evs"
  have l: "loaded empty_page"
    by (simp add: loaded_def empty_page_def)
  have v: "trim (input_value s) = lit ''hi''" "next_node s = 4" "chat_kids s = [0, 3]" "next_timer s = 1"
    unfolding s_def evs_def E_def by code_simp+
  then have ne: "trim (input_value (run E empty_page evs)) \<noteq> []"
    by (simp add: s_def lit_Nil_iff)
  from user_message_precedes_exchange_and_reply [OF l ne] v
  have "effects (sendMessage s) = effects s @ [AppendChat 4, AppendChat 5, SetInterval 1, Fetch API_URL (lit ''hi'')] \<and>
       className (nodes (sendMessage s) 4) = lit ''message user'' \<and> innerText (nodes (sendMessage s) 4) = lit ''hi'' \<and>
       chat_kids (sendMessage s) = [0, 3, 4, 5] \<and>
       (\<exists>pre post. chat_kids (run E (sendMessage s) [FetchResolve 1 200, JsonResolve 1 (JObj [])]) = pre @ 4 # post \<and>
          set pre \<subseteq> {0, 3} \<and> (\<forall>n \<in> set post. 4 < n))"
    unfolding Let_def s_def [symmetric]
    by (simp del: run.simps add: eval_nat_numeral)
  with l v show ?thesis
    unfolding Let_def E_def [symmetric] evs_def [symmetric] s_def [symmetric] by blast
qed

subsection \<open>C10: the reply is chosen by truthiness\<close>

text \<open>
  Claim C10: when the field \<open>answer\<close> is present but falsy, the reply is taken from the
  field \<open>response\<close>, and when that is falsy too (or absent) the reply is "No reply"; the
  reply is never a falsy value.
\<close>

theorem reply_selected_by_truthiness:
  "(map_of kv (lit ''answer'') = Some a \<and> \<not> truthy a \<longrightarrow>
      replyText (JObj kv) =
        Some (case map_of kv (lit ''response'') of
                None \<Rightarrow> JStr (lit ''No reply'')
              | Some r \<Rightarrow> if truthy r then r else JStr (lit ''No reply'')))
   \<and> (\<forall>data v. replyText data = Some v \<longrightarrow> truthy v)"
  by (auto simp: replyText_def lit_Nil_iff split: option.splits if_splits)

theorem reply_selected_by_truthiness_witness:
  "\<not> truthy (JStr []) \<and>
   replyText (JObj [(lit ''answer'', JStr []), (lit ''response'', JNum 7)]) = Some (JNum 7) \<and>
   replyText (JObj [(lit ''answer'', JStr []), (lit ''response'', JNum 0)]) = Some (JStr (lit ''No reply'')) \<and>
   replyText (JObj [(lit ''answer'', JNull)]) = Some (JStr (lit ''No reply'')) \<and>
   truthy (JStr (lit ''No reply''))"
  using reply_selected_by_truthiness [of "[(lit ''answer'', JStr []), (lit ''response'', JNum 7)]" "JStr []"]
    reply_selected_by_truthiness [of "[(lit ''answer'', JStr []), (lit ''response'', JNum 0)]" "JStr []"]
    reply_selected_by_truthiness [of "[(lit ''answer'', JNull)]" JNull]
  by (simp add: lit_eq_iff lit_Nil_iff)

end
